theory Spec2Isabelle
  imports Main
begin

section \<open>Python values: strings, errors, conversions\<close>

text \<open>
  A Python \<^verbatim>\<open>str\<close> is a sequence of Unicode code points; the titles handled by
  \<^verbatim>\<open>epub_info.py\<close> are mostly outside ASCII, so a string is a list of code points.
  \<open>u\<close> reads an ASCII literal.
\<close>

type_synonym ustr = "nat list"

definition u :: "string \<Rightarrow> ustr" where
  "u s = map of_char s"

text \<open>The exceptions the built-ins used by the formatters can raise.\<close>

datatype error = ValueError | TypeError

fun ebind :: "error + 'a \<Rightarrow> ('a \<Rightarrow> error + 'b) \<Rightarrow> error + 'b" where
  "ebind (Inl e) f = Inl e"
| "ebind (Inr x) f = f x"

text \<open>
  \<^verbatim>\<open>ord(s)\<close> wants a string of length one (\<^verbatim>\<open>TypeError\<close> otherwise, also for
  \<^verbatim>\<open>None\<close>), \<^verbatim>\<open>chr(i)\<close> wants \<open>0 \<le> i < 0x110000\<close> (\<^verbatim>\<open>ValueError\<close> otherwise).
\<close>

fun py_ord :: "ustr \<Rightarrow> error + int" where
  "py_ord [c] = Inr (int c)"
| "py_ord _ = Inl TypeError"

fun py_ord_opt :: "ustr option \<Rightarrow> error + int" where
  "py_ord_opt None = Inl TypeError"
| "py_ord_opt (Some s) = py_ord s"

definition py_chr :: "int \<Rightarrow> error + ustr" where
  "py_chr i = (if 0 \<le> i \<and> i < 0x110000 then Inr [nat i] else Inl ValueError)"

subsection \<open>The character tables of the regular expression engine\<close>

text \<open>
  In a \<^verbatim>\<open>str\<close> pattern \<^verbatim>\<open>\s\<close> matches the Unicode whitespace characters and
  \<^verbatim>\<open>\d\<close> the Unicode decimal digits (category Nd). The decimal digits come in
  runs of ten consecutive code points with the values 0 to 9; \<open>digit_starts\<close> lists
  the code point of the zero of every run (Unicode 14.0.0).
\<close>

definition space_chars :: "nat list" where
  "space_chars = [0x09, 0x0A, 0x0B, 0x0C, 0x0D, 0x1C, 0x1D, 0x1E, 0x1F, 0x20, 0x85, 0xA0,
     0x1680, 0x2000, 0x2001, 0x2002, 0x2003, 0x2004, 0x2005, 0x2006, 0x2007, 0x2008,
     0x2009, 0x200A, 0x2028, 0x2029, 0x202F, 0x205F, 0x3000]"

definition digit_starts :: "nat list" where
  "digit_starts = [0x30, 0x660, 0x6F0, 0x7C0, 0x966, 0x9E6, 0xA66, 0xAE6, 0xB66, 0xBE6,
     0xC66, 0xCE6, 0xD66, 0xDE6, 0xE50, 0xED0, 0xF20, 0x1040, 0x1090, 0x17E0, 0x1810,
     0x1946, 0x19D0, 0x1A80, 0x1A90, 0x1B50, 0x1BB0, 0x1C40, 0x1C50, 0xA620, 0xA8D0,
     0xA900, 0xA9D0, 0xA9F0, 0xAA50, 0xABF0, 0xFF10, 0x104A0, 0x10D30, 0x11066, 0x110F0,
     0x11136, 0x111D0, 0x112F0, 0x11450, 0x114D0, 0x11650, 0x116C0, 0x11730, 0x118E0,
     0x11950, 0x11C50, 0x11D50, 0x11DA0, 0x16A60, 0x16AC0, 0x16B50, 0x1D7CE, 0x1D7D8,
     0x1D7E2, 0x1D7EC, 0x1D7F6, 0x1E140, 0x1E2F0, 0x1E950, 0x1FBF0]"

definition is_space :: "nat \<Rightarrow> bool" where
  "is_space c = (c \<in> set space_chars)"

definition is_digit :: "nat \<Rightarrow> bool" where
  "is_digit c = list_ex (\<lambda>s. s \<le> c \<and> c < s + 10) digit_starts"

fun digit_value_in :: "nat list \<Rightarrow> nat \<Rightarrow> nat option" where
  "digit_value_in [] c = None"
| "digit_value_in (s # ss) c = (if s \<le> c \<and> c < s + 10 then Some (c - s) else digit_value_in ss c)"

definition digit_value :: "nat \<Rightarrow> nat option" where
  "digit_value c = digit_value_in digit_starts c"

subsection \<open>\<^verbatim>\<open>int\<close>, \<^verbatim>\<open>str\<close>, \<^verbatim>\<open>zfill\<close>, \<^verbatim>\<open>join\<close>\<close>

text \<open>
  \<^verbatim>\<open>int(s)\<close> on a non-empty run of decimal digits is its decimal value; Python's
  integers are unbounded, so the value is a natural number. The formatters call
  \<^verbatim>\<open>int\<close> on what \<^verbatim>\<open>(\d+)\<close> captured only; every other argument (also the
  signed and the blank-padded numerals \<^verbatim>\<open>int\<close> would accept) is given the
  \<^verbatim>\<open>ValueError\<close> branch here, and \<^verbatim>\<open>None\<close> the \<^verbatim>\<open>TypeError\<close>.
\<close>

fun int_digits :: "nat \<Rightarrow> ustr \<Rightarrow> error + nat" where
  "int_digits acc [] = Inr acc"
| "int_digits acc (c # cs) =
     (case digit_value c of None \<Rightarrow> Inl ValueError | Some d \<Rightarrow> int_digits (10 * acc + d) cs)"

fun py_int :: "ustr option \<Rightarrow> error + nat" where
  "py_int None = Inl TypeError"
| "py_int (Some []) = Inl ValueError"
| "py_int (Some (c # cs)) = int_digits 0 (c # cs)"

function py_str :: "nat \<Rightarrow> ustr" where
  "py_str n = (if n < 10 then [0x30 + n] else py_str (n div 10) @ [0x30 + n mod 10])"
  by pat_completeness auto
termination
  by (relation "measure (\<lambda>n. n)") auto

declare py_str.simps [simp del]

text \<open>\<^verbatim>\<open>s.zfill(w)\<close> pads with \<^verbatim>\<open>0\<close> on the left, after a leading sign.\<close>

fun zfill :: "nat \<Rightarrow> ustr \<Rightarrow> ustr" where
  "zfill w [] = replicate w 0x30"
| "zfill w (c # cs) =
     (if c = 0x2B \<or> c = 0x2D then c # replicate (w - Suc (length cs)) 0x30 @ cs
      else replicate (w - Suc (length cs)) 0x30 @ c # cs)"

fun join :: "ustr \<Rightarrow> ustr list \<Rightarrow> ustr" where
  "join sep [] = []"
| "join sep [x] = x"
| "join sep (x # y # ys) = x @ sep @ join sep (y # ys)"

text \<open>An f-string field prints \<^verbatim>\<open>None\<close> as the text \<^verbatim>\<open>None\<close>.\<close>

fun fmt_opt :: "ustr option \<Rightarrow> ustr" where
  "fmt_opt None = u ''None''"
| "fmt_opt (Some s) = s"

section \<open>The regular expressions of \<^verbatim>\<open>re\<close>, as far as the formatters use them\<close>

text \<open>
  A character class is a list of items. The patterns of the source repeat single
  characters and classes only (\<^verbatim>\<open>\s*\<close>, \<^verbatim>\<open>\s+\<close>, \<^verbatim>\<open>\d+\<close>, \<^verbatim>\<open>.+?\<close>, \<^verbatim>\<open>.*?\<close>), so the
  repetitions take a class; \<^verbatim>\<open>?\<close> takes any pattern. \<open>NotNL\<close> is the dot.
\<close>

datatype citem = Ch nat | Rg nat nat | Space | Digit | NotNL

fun in_item :: "citem \<Rightarrow> nat \<Rightarrow> bool" where
  "in_item (Ch a) c = (c = a)"
| "in_item (Rg a b) c = (a \<le> c \<and> c \<le> b)"
| "in_item Space c = is_space c"
| "in_item Digit c = is_digit c"
| "in_item NotNL c = (c \<noteq> 0x0A)"

definition in_class :: "citem list \<Rightarrow> nat \<Rightarrow> bool" where
  "in_class cl c = list_ex (\<lambda>i. in_item i c) cl"

datatype rx =
    Lit ustr
  | Set "citem list"
  | Cat rx rx
  | Alt rx rx
  | Opt rx
  | Star "citem list"
  | Plus "citem list"
  | LazyStar "citem list"
  | LazyPlus "citem list"
  | Grp rx
  | Ahead rx
  | Behind "citem list"

fun cats :: "rx list \<Rightarrow> rx" where
  "cats [] = Lit []"
| "cats [r] = r"
| "cats (r # q # rs) = Cat r (cats (q # rs))"

fun alts :: "rx list \<Rightarrow> rx" where
  "alts [] = Set []"
| "alts [r] = r"
| "alts (r # q # rs) = Alt r (alts (q # rs))"

text \<open>
  The matcher is the backtracking one of \<^verbatim>\<open>re\<close>: at a position it lists every way
  the pattern can match, in the order in which backtracking would try them (a greedy
  repetition longest first, a lazy one shortest first, an alternation left to right,
  \<^verbatim>\<open>?\<close> with the pattern before without it). A state is the text before the
  position (reversed), the text from the position on, and what group 1 captured.
\<close>

type_synonym mstate = "ustr \<times> ustr \<times> ustr option"

fun greedy :: "citem list \<Rightarrow> mstate \<Rightarrow> mstate list" where
  "greedy cl (b, [], g) = [(b, [], g)]"
| "greedy cl (b, x # xs, g) =
     (if in_class cl x then greedy cl (x # b, xs, g) else []) @ [(b, x # xs, g)]"

fun lazy :: "citem list \<Rightarrow> mstate \<Rightarrow> mstate list" where
  "lazy cl (b, [], g) = [(b, [], g)]"
| "lazy cl (b, x # xs, g) =
     (b, x # xs, g) # (if in_class cl x then lazy cl (x # b, xs, g) else [])"

fun one :: "citem list \<Rightarrow> mstate \<Rightarrow> mstate list" where
  "one cl (b, [], g) = []"
| "one cl (b, x # xs, g) = (if in_class cl x then [(x # b, xs, g)] else [])"

fun ms :: "rx \<Rightarrow> mstate \<Rightarrow> mstate list" where
  "ms (Lit w) (b, r, g) =
     (if take (length w) r = w then [(rev w @ b, drop (length w) r, g)] else [])"
| "ms (Set cl) s = one cl s"
| "ms (Cat p q) s = concat (map (ms q) (ms p s))"
| "ms (Alt p q) s = ms p s @ ms q s"
| "ms (Opt p) s = ms p s @ [s]"
| "ms (Star cl) s = greedy cl s"
| "ms (Plus cl) s = concat (map (greedy cl) (one cl s))"
| "ms (LazyStar cl) s = lazy cl s"
| "ms (LazyPlus cl) s = concat (map (lazy cl) (one cl s))"
| "ms (Grp p) (b, r, g) =
     map (\<lambda>(b', r', g'). (b', r', Some (take (length r - length r') r))) (ms p (b, r, g))"
| "ms (Ahead p) s = (if ms p s = [] then [] else [s])"
| "ms (Behind cl) (b, r, g) =
     (case b of [] \<Rightarrow> [] | x # _ \<Rightarrow> if in_class cl x then [(b, r, g)] else [])"

text \<open>
  \<^verbatim>\<open>re.search\<close> tries the positions from left to right and takes the first way the
  pattern matches at the first position where it does. Inside \<^verbatim>\<open>re.sub\<close> the search
  that follows an empty match must not match the empty string at the same position
  again (\<open>must\<close>); the flag is dropped after the first position.
  The result is the state where the match starts and the state where it ends.
\<close>

definition match_here :: "rx \<Rightarrow> bool \<Rightarrow> ustr \<Rightarrow> ustr \<Rightarrow> mstate option" where
  "match_here r must b rest =
     (case filter (\<lambda>(b', r', g). \<not> (must \<and> length r' = length rest))
             (ms r (b, rest, None)) of
        [] \<Rightarrow> None
      | s # _ \<Rightarrow> Some s)"

fun search_at :: "rx \<Rightarrow> bool \<Rightarrow> ustr \<Rightarrow> ustr \<Rightarrow> (ustr \<times> ustr \<times> mstate) option" where
  "search_at r must b [] =
     (case match_here r must b [] of
        Some s \<Rightarrow> Some (b, [], s)
      | None \<Rightarrow> None)"
| "search_at r must b (x # xs) =
     (case match_here r must b (x # xs) of
        Some s \<Rightarrow> Some (b, x # xs, s)
      | None \<Rightarrow> search_at r False (x # b) xs)"

text \<open>A match object, as far as it is read: \<^verbatim>\<open>group(0)\<close> and \<^verbatim>\<open>group(1)\<close>.\<close>

record rmatch =
  group0 :: ustr
  group1 :: "ustr option"

definition re_search :: "rx \<Rightarrow> ustr \<Rightarrow> rmatch option" where
  "re_search r text =
     (case search_at r False [] text of
        None \<Rightarrow> None
      | Some (b0, r0, b1, r1, g) \<Rightarrow>
          Some \<lparr>group0 = take (length r0 - length r1) r0, group1 = g\<rparr>)"

subsection \<open>What a match consumes\<close>

lemma one_shape:
  "s' \<in> set (one cl (b, r, g)) \<Longrightarrow> \<exists>x. in_class cl x \<and> r = x # fst (snd s') \<and> s' = (x # b, fst (snd s'), g)"
  by (cases r) (auto split: if_splits)

lemma greedy_shape:
  "s' \<in> set (greedy cl (b, r, g)) \<Longrightarrow>
     \<exists>w. r = w @ fst (snd s') \<and> s' = (rev w @ b, fst (snd s'), g) \<and> (\<forall>c\<in>set w. in_class cl c)"
proof (induction r arbitrary: b)
  case Nil
  then show ?case by auto
next
  case (Cons x xs)
  show ?case
  proof (cases "s' = (b, x # xs, g)")
    case True
    then show ?thesis by auto
  next
    case False
    with Cons.prems have c: "in_class cl x" and m: "s' \<in> set (greedy cl (x # b, xs, g))"
      by (auto split: if_splits)
    from Cons.IH [OF m] obtain w where
      w: "xs = w @ fst (snd s')" "s' = (rev w @ x # b, fst (snd s'), g)" "\<forall>c\<in>set w. in_class cl c"
      by blast
    show ?thesis
      by (rule exI [of _ "x # w"]) (use w c in auto)
  qed
qed

lemma lazy_shape:
  "s' \<in> set (lazy cl (b, r, g)) \<Longrightarrow>
     \<exists>w. r = w @ fst (snd s') \<and> s' = (rev w @ b, fst (snd s'), g) \<and> (\<forall>c\<in>set w. in_class cl c)"
proof (induction r arbitrary: b)
  case Nil
  then show ?case by auto
next
  case (Cons x xs)
  show ?case
  proof (cases "s' = (b, x # xs, g)")
    case True
    then show ?thesis by auto
  next
    case False
    with Cons.prems have c: "in_class cl x" and m: "s' \<in> set (lazy cl (x # b, xs, g))"
      by (auto split: if_splits)
    from Cons.IH [OF m] obtain w where
      w: "xs = w @ fst (snd s')" "s' = (rev w @ x # b, fst (snd s'), g)" "\<forall>c\<in>set w. in_class cl c"
      by blast
    show ?thesis
      by (rule exI [of _ "x # w"]) (use w c in auto)
  qed
qed

lemma ms_suffix:
  "(b', r', g') \<in> set (ms p (b, r, g)) \<Longrightarrow> \<exists>w. r = w @ r' \<and> b' = rev w @ b"
proof (induction p arbitrary: b r g b' r' g')
  case (Lit w)
  then show ?case
    by (auto split: if_splits intro!: exI [of _ w]) (metis append_take_drop_id)
next
  case (Set cl)
  then show ?case by (auto dest!: one_shape)
next
  case (Cat p q)
  from Cat.prems obtain b1 r1 g1 where
    a: "(b1, r1, g1) \<in> set (ms p (b, r, g))" and c: "(b', r', g') \<in> set (ms q (b1, r1, g1))"
    by auto
  from Cat.IH(1) [OF a] obtain w1 where w1: "r = w1 @ r1" "b1 = rev w1 @ b" by blast
  from Cat.IH(2) [OF c] obtain w2 where w2: "r1 = w2 @ r'" "b' = rev w2 @ b1" by blast
  show ?case by (rule exI [of _ "w1 @ w2"]) (simp add: w1 w2)
next
  case (Alt p q)
  then show ?case by auto
next
  case (Opt p)
  then show ?case by auto
next
  case (Star cl)
  then show ?case by (auto dest!: greedy_shape)
next
  case (Plus cl)
  from Plus obtain s1 where s1: "s1 \<in> set (one cl (b, r, g))" and
     m: "(b', r', g') \<in> set (greedy cl s1)" by auto
  from one_shape [OF s1] obtain x where x: "r = x # fst (snd s1)" "s1 = (x # b, fst (snd s1), g)" by blast
  from m x(2) have "(b', r', g') \<in> set (greedy cl (x # b, fst (snd s1), g))" by simp
  from greedy_shape [OF this] obtain w where "fst (snd s1) = w @ r'" "b' = rev w @ x # b" by auto
  then show ?case using x by (intro exI [of _ "x # w"]) simp
next
  case (LazyStar cl)
  then show ?case by (auto dest!: lazy_shape)
next
  case (LazyPlus cl)
  from LazyPlus obtain s1 where s1: "s1 \<in> set (one cl (b, r, g))" and
     m: "(b', r', g') \<in> set (lazy cl s1)" by auto
  from one_shape [OF s1] obtain x where x: "r = x # fst (snd s1)" "s1 = (x # b, fst (snd s1), g)" by blast
  from m x(2) have "(b', r', g') \<in> set (lazy cl (x # b, fst (snd s1), g))" by simp
  from lazy_shape [OF this] obtain w where "fst (snd s1) = w @ r'" "b' = rev w @ x # b" by auto
  then show ?case using x by (intro exI [of _ "x # w"]) simp
next
  case (Grp p)
  then show ?case by auto
next
  case (Ahead p)
  then show ?case by (auto split: if_splits)
next
  case (Behind cl)
  then show ?case by (auto split: list.splits if_splits)
qed

lemma match_here_shape:
  assumes "match_here r must b rest = Some (b1, r1, g)"
  shows "\<exists>m. rest = m @ r1 \<and> b1 = rev m @ b \<and> (must \<longrightarrow> m \<noteq> [])
           \<and> (b1, r1, g) \<in> set (ms r (b, rest, None))"
proof -
  let ?f = "filter (\<lambda>(b', r', g). \<not> (must \<and> length r' = length rest)) (ms r (b, rest, None))"
  from assms obtain ss where "?f = (b1, r1, g) # ss"
    by (auto simp: match_here_def split: list.splits)
  then have "(b1, r1, g) \<in> set ?f" by simp
  then have m: "(b1, r1, g) \<in> set (ms r (b, rest, None))"
    and n: "\<not> (must \<and> length r1 = length rest)" by auto
  from ms_suffix [OF m] obtain w where w: "rest = w @ r1" "b1 = rev w @ b" by blast
  have "must \<Longrightarrow> w \<noteq> []" using n w by auto
  with m w show ?thesis by blast
qed

lemma search_at_shape:
  "search_at r must b rest = Some (b0, r0, b1, r1, g) \<Longrightarrow>
     \<exists>pre m. rest = pre @ r0 \<and> b0 = rev pre @ b \<and> r0 = m @ r1 \<and> b1 = rev m @ b0
        \<and> (must \<and> pre = [] \<longrightarrow> m \<noteq> [])
        \<and> (b1, r1, g) \<in> set (ms r (b0, r0, None))"
proof (induction rest arbitrary: must b)
  case Nil
  then have h: "match_here r must b [] = Some (b1, r1, g)" and e: "b0 = b" "r0 = []"
    by (auto split: option.splits)
  from match_here_shape [OF h] e show ?case by auto
next
  case (Cons x xs)
  show ?case
  proof (cases "match_here r must b (x # xs)")
    case None
    with Cons.prems have "search_at r False (x # b) xs = Some (b0, r0, b1, r1, g)" by simp
    from Cons.IH [OF this] obtain pre m where
      "xs = pre @ r0" "b0 = rev pre @ x # b" "r0 = m @ r1" "b1 = rev m @ b0"
      "(b1, r1, g) \<in> set (ms r (b0, r0, None))" by blast
    then show ?thesis
      by (intro exI [of _ "x # pre"] exI [of _ m]) simp
  next
    case (Some s)
    with Cons.prems have e: "b0 = b" "r0 = x # xs" "s = (b1, r1, g)" by auto
    from match_here_shape [of r must b "x # xs" b1 r1 g] Some e obtain w where
      "x # xs = w @ r1" "b1 = rev w @ b" "must \<longrightarrow> w \<noteq> []"
      "(b1, r1, g) \<in> set (ms r (b, x # xs, None))" by auto
    with e show ?thesis
      by (intro exI [of _ "[]"] exI [of _ w]) auto
  qed
qed

subsection \<open>\<^verbatim>\<open>re.sub\<close>\<close>

text \<open>
  \<^verbatim>\<open>re.sub\<close> cuts the text into the stretches between the matches and the matches,
  searching on from the end of each match; after an empty match the next one must not
  be empty at the same place. Every match is replaced, the stretches are kept.
\<close>

datatype piece = Gap ustr | Hit ustr

function pieces :: "rx \<Rightarrow> bool \<Rightarrow> ustr \<Rightarrow> ustr \<Rightarrow> piece list" where
  "pieces r must b rest =
     (case search_at r must b rest of
        None \<Rightarrow> [Gap rest]
      | Some (b0, r0, b1, r1, g) \<Rightarrow>
          Gap (take (length rest - length r0) rest) # Hit (take (length r0 - length r1) r0)
            # pieces r (length r1 = length r0) b1 r1)"
  by pat_completeness auto
termination
proof (relation "measure (\<lambda>(r, must, b, rest). 2 * length rest + (if must then 0 else 1))", goal_cases)
  case 1
  show ?case by simp
next
  case (2 r must b rest x2 b0 y r0 ya b1 yb r1 g)
  then have "search_at r must b rest = Some (b0, r0, b1, r1, g)" by simp
  from search_at_shape [OF this] obtain pre m where
    "rest = pre @ r0" "r0 = m @ r1" "must \<and> pre = [] \<longrightarrow> m \<noteq> []" by blast
  then show ?case by (cases must) (auto simp: neq_Nil_conv)
qed

declare pieces.simps [simp del]

fun piece_text :: "ustr \<Rightarrow> piece \<Rightarrow> ustr" where
  "piece_text repl (Gap g) = g"
| "piece_text repl (Hit m) = repl"

definition re_sub :: "rx \<Rightarrow> ustr \<Rightarrow> ustr \<Rightarrow> ustr" where
  "re_sub r repl text = concat (map (piece_text repl) (pieces r False [] text))"

text \<open>
  With a function for the replacement, the function is called on every match from
  left to right, and the first exception it raises ends the substitution.
\<close>

fun sub_pieces :: "(ustr \<Rightarrow> error + ustr) \<Rightarrow> piece list \<Rightarrow> error + ustr" where
  "sub_pieces f [] = Inr []"
| "sub_pieces f (Gap g # ps) = ebind (sub_pieces f ps) (\<lambda>rest. Inr (g @ rest))"
| "sub_pieces f (Hit m # ps) =
     ebind (f m) (\<lambda>x. ebind (sub_pieces f ps) (\<lambda>rest. Inr (x @ rest)))"

definition re_sub_fn :: "rx \<Rightarrow> (ustr \<Rightarrow> error + ustr) \<Rightarrow> ustr \<Rightarrow> error + ustr" where
  "re_sub_fn r f text = sub_pieces f (pieces r False [] text)"

section \<open>The formatters of \<^verbatim>\<open>epub_info.py\<close>\<close>

subsection \<open>Character rewriting\<close>

text \<open>\<^verbatim>\<open>[\<close>full-width A-Z, a-z, 0-9\<^verbatim>\<open>]\<close>, each character moved down by \<open>0xFEE0\<close>.\<close>

definition rx_fullwidth_alnum :: rx where
  "rx_fullwidth_alnum = Set [Rg 0xFF21 0xFF3A, Rg 0xFF41 0xFF5A, Rg 0xFF10 0xFF19]"

definition shift_char :: "int \<Rightarrow> ustr \<Rightarrow> error + ustr" where
  "shift_char d g = ebind (py_ord g) (\<lambda>n. py_chr (n + d))"

definition replace_fullwidth_alpha_numeral_to_halfwidth :: "ustr \<Rightarrow> error + ustr" where
  "replace_fullwidth_alpha_numeral_to_halfwidth text =
     re_sub_fn rx_fullwidth_alnum (shift_char (- 0xFEE0)) text"

text \<open>\<^verbatim>\<open>[<>:"\/\\|!?*]\<close>, each character moved up by \<open>0xFEE0\<close>.\<close>

definition unsafe_symbols :: "nat list" where
  "unsafe_symbols = [0x3C, 0x3E, 0x3A, 0x22, 0x2F, 0x5C, 0x7C, 0x21, 0x3F, 0x2A]"

definition rx_unsafe :: rx where
  "rx_unsafe = Set (map Ch unsafe_symbols)"

definition replace_unsafe_symbol_to_safe_symbol :: "ustr \<Rightarrow> error + ustr" where
  "replace_unsafe_symbol_to_safe_symbol text = re_sub_fn rx_unsafe (shift_char 0xFEE0) text"

text \<open>The two full-width round brackets, moved down by \<open>0xFEE0\<close>.\<close>

definition rx_fullwidth_brackets :: rx where
  "rx_fullwidth_brackets = Set [Ch 0xFF08, Ch 0xFF09]"

definition replace_fullwidth_round_brackets_to_halfwidth :: "ustr \<Rightarrow> error + ustr" where
  "replace_fullwidth_round_brackets_to_halfwidth text =
     re_sub_fn rx_fullwidth_brackets (shift_char (- 0xFEE0)) text"

subsection \<open>Numbers in round brackets\<close>

text \<open>
  \<^verbatim>\<open>\s*\(\s*(\d+)\s*\)\s+\<close> is searched, \<^verbatim>\<open>\s*\(\s*\d+\s*\)\s*\<close> is substituted; then
  \<^verbatim>\<open>\s*\(\s*(\d+)\s*\)\s*\.epub\<close> is searched and \<^verbatim>\<open>\s*\(\s*\d+\s*\)\s*(?=\.epub)\<close>
  substituted.
\<close>

definition rx_paren_space :: rx where
  "rx_paren_space = cats [Star [Space], Lit [0x28], Star [Space], Grp (Plus [Digit]),
     Star [Space], Lit [0x29], Plus [Space]]"

definition rx_paren_sub :: rx where
  "rx_paren_sub = cats [Star [Space], Lit [0x28], Star [Space], Plus [Digit],
     Star [Space], Lit [0x29], Star [Space]]"

definition rx_paren_ext :: rx where
  "rx_paren_ext = cats [Star [Space], Lit [0x28], Star [Space], Grp (Plus [Digit]),
     Star [Space], Lit [0x29], Star [Space], Lit (u ''.epub'')]"

definition rx_paren_ext_sub :: rx where
  "rx_paren_ext_sub = cats [Star [Space], Lit [0x28], Star [Space], Plus [Digit],
     Star [Space], Lit [0x29], Star [Space], Ahead (Lit (u ''.epub''))]"

definition pad2 :: "nat \<Rightarrow> ustr" where
  "pad2 n = zfill 2 (py_str n)"

definition pad_round_brackets_space :: "ustr \<Rightarrow> error + ustr" where
  "pad_round_brackets_space text =
     (case re_search rx_paren_space text of
        None \<Rightarrow> Inr text
      | Some m \<Rightarrow> ebind (py_int (group1 m)) (\<lambda>n.
          Inr (re_sub rx_paren_sub ([0x20] @ pad2 n @ [0x20]) text)))"

definition pad_round_brackets_ext :: "ustr \<Rightarrow> error + ustr" where
  "pad_round_brackets_ext text =
     (case re_search rx_paren_ext text of
        None \<Rightarrow> Inr text
      | Some m \<Rightarrow> ebind (py_int (group1 m)) (\<lambda>n.
          Inr (re_sub rx_paren_ext_sub ([0x20] @ pad2 n) text)))"

definition pad_numeric_only_string_enclosed_in_round_brackets :: "ustr \<Rightarrow> error + ustr" where
  "pad_numeric_only_string_enclosed_in_round_brackets text =
     ebind (pad_round_brackets_space text) pad_round_brackets_ext"

subsection \<open>Kanji numerals\<close>

definition kanji_numbers :: "ustr list" where
  "kanji_numbers = [[0x58F1], [0x5F10], [0x53C2], [0x8086], [0x4F0D], [0x9678], [0x6F06],
     [0x634C], [0x7396], [0x62FE], [0x4EC0]]"

text \<open>\<^verbatim>\<open>dict(pairs)\<close> keeps the last value of a key.\<close>

definition kanji_mapping :: "ustr \<rightharpoonup> ustr" where
  "kanji_mapping = map_of (rev (zip kanji_numbers (map py_str [1..<11] @ [u ''10''])))"

fun dict_get :: "(ustr \<rightharpoonup> ustr) \<Rightarrow> ustr option \<Rightarrow> ustr option" where
  "dict_get d None = None"
| "dict_get d (Some k) = d k"

text \<open>The class is written \<^verbatim>\<open>'[' + '|'.join(kanji_numbers) + ']'\<close>.\<close>

definition kanji_class :: "citem list" where
  "kanji_class = map Ch (join [0x7C] kanji_numbers)"

definition rx_kanji :: rx where
  "rx_kanji = cats [Star [Space], Grp (Set kanji_class), Star [Space], Opt (Lit [0x5DFB]),
     Star [Space]]"

definition rx_kanji_sub :: rx where
  "rx_kanji_sub = cats [Star [Space], Set kanji_class, Star [Space], Opt (Lit [0x5DFB]),
     Star [Space]]"

definition pad_kanji_number :: "ustr \<Rightarrow> ustr" where
  "pad_kanji_number text =
     (case re_search rx_kanji text of
        None \<Rightarrow> text
      | Some m \<Rightarrow>
          re_sub rx_kanji_sub ([0x20] @ fmt_opt (dict_get kanji_mapping (group1 m)) @ [0x20]) text)"

subsection \<open>Authors\<close>

definition format_book_author :: "ustr \<Rightarrow> error + ustr" where
  "format_book_author book_author =
     ebind (replace_fullwidth_alpha_numeral_to_halfwidth book_author)
       replace_unsafe_symbol_to_safe_symbol"

subsection \<open>Titles\<close>

text \<open>The two annotation patterns, the colons and the runs of whitespace.\<close>

definition rx_annotation_tokens :: rx where
  "rx_annotation_tokens =
     Grp (alts [Lit [0x4ED8, 0x304D],
                Lit [0x5897, 0x91CF, 0x7248],
                Cat (Lit [0x7121, 0x6599]) (Opt (Lit [0x7248])),
                Lit [0x51FA, 0x7248],
                Lit [0x8A8C, 0x7248],
                Cat (Lit [0x7279, 0x5225]) (Opt (Lit [0x7248])),
                Cat (Lit [0x7279, 0x5178, 0x4ED8]) (Opt (Lit [0x304D])),
                Cat (Lit [0x6F2B, 0x753B, 0x4ED8]) (Opt (Lit [0x304D]))])"

definition rx_annotation :: rx where
  "rx_annotation = cats [Lit [0x3010], LazyPlus [NotNL], rx_annotation_tokens, Lit [0x3011]]"

definition rx_label_tokens :: rx where
  "rx_label_tokens =
     Grp (alts [Lit (u ''BOOKS''),
                Lit (u ''Creative''),
                Cat (Lit (u ''DX'')) (Opt (Lit [0x7248])),
                Lit (u ''GAMES''),
                Lit (u ''JOKER''),
                Lit (u ''Network''),
                Lit (u ''NOVELS''),
                Lit (u ''NOVEL 0''),
                Lit (u ''Publishing''),
                Lit [0x30A8, 0x30A4, 0x30B8],
                Lit [0x30A8, 0x30AF, 0x30B9, 0x30C8, 0x30E9],
                Lit [0x30B3, 0x30DF, 0x30C3, 0x30AF],
                Lit [0x30B7, 0x30EA, 0x30FC, 0x30BA],
                Lit [0x30B9],
                Lit [0x30CE, 0x30D9, 0x30EB, 0x30BA],
                Lit [0x30E9, 0x30CE, 0x30D9],
                Lit [0x9650, 0x5B9A, 0x7248],
                Lit [0x5C0F, 0x8AAC],
                Lit [0x65B0, 0x88C5, 0x7248],
                Lit [0x96FB, 0x5B50, 0x7248],
                Lit [0x7279, 0x5178, 0x4ED8, 0x304D],
                Lit [0x7279, 0x5225, 0x7248],
                Lit [0x6587, 0x82B8],
                Cat (Lit [0x6587, 0x5EAB]) (Opt (Lit (u ''J''))),
                Lit [0x7DE8, 0x96C6, 0x90E8]])"

definition rx_label :: rx where
  "rx_label = cats [Set [Ch 0x28, Ch 0xFF1C, Ch 0x3008], LazyStar [NotNL], rx_label_tokens,
     Set [Ch 0x3009, Ch 0xFF1E, Ch 0x29]]"

definition rx_colon :: rx where
  "rx_colon = Set [Ch 0xFF1A, Ch 0x3A]"

definition rx_spaces :: rx where
  "rx_spaces = Plus [Space]"

definition replace_unnecessary_characters :: "ustr \<Rightarrow> ustr" where
  "replace_unnecessary_characters book_title =
     re_sub rx_spaces [0x20]
       (re_sub rx_colon [0x20]
         (re_sub rx_label []
           (re_sub rx_annotation [] book_title)))"

text \<open>
  The four ranges of circled, parenthesised, full-stop and double-circled digits
  \<open>lo\<close> to \<open>hi\<close>, each with the offset that takes its first character to \<^verbatim>\<open>1\<close>.
\<close>

definition rx_symbol :: "nat \<Rightarrow> nat \<Rightarrow> rx" where
  "rx_symbol lo hi = cats [Star [Space], Grp (Set [Rg lo hi]), Star [Space],
     Opt (Lit [0x5DFB]), Star [Space]]"

definition rx_symbol_sub :: "nat \<Rightarrow> nat \<Rightarrow> rx" where
  "rx_symbol_sub lo hi = cats [Star [Space], Set [Rg lo hi], Star [Space],
     Opt (Lit [0x5DFB]), Star [Space]]"

definition pad_symbol_number :: "nat \<Rightarrow> nat \<Rightarrow> int \<Rightarrow> ustr \<Rightarrow> error + ustr" where
  "pad_symbol_number lo hi off book_title =
     (case re_search (rx_symbol lo hi) book_title of
        None \<Rightarrow> Inr book_title
      | Some m \<Rightarrow> ebind (py_ord_opt (group1 m)) (\<lambda>n. ebind (py_chr (n - off)) (\<lambda>d.
          Inr (re_sub (rx_symbol_sub lo hi) ([0x20] @ zfill 2 d @ [0x20]) book_title))))"

text \<open>
  \<^verbatim>\<open>(?<=\s)?(\d+)(?=\<close>volume\<^verbatim>\<open>?\s*\.epub)\<close> is searched and
  \<^verbatim>\<open>\s*\d+\<close>volume\<^verbatim>\<open>?\s*(?=\.epub)\<close> substituted.
\<close>

definition rx_before_ext :: rx where
  "rx_before_ext = cats [Opt (Behind [Space]), Grp (Plus [Digit]),
     Ahead (cats [Opt (Lit [0x5DFB]), Star [Space], Lit (u ''.epub'')])]"

definition rx_before_ext_sub :: rx where
  "rx_before_ext_sub = cats [Star [Space], Plus [Digit], Opt (Lit [0x5DFB]), Star [Space],
     Ahead (Lit (u ''.epub''))]"

definition pad_before_extension :: "ustr \<Rightarrow> error + ustr" where
  "pad_before_extension book_title =
     (case re_search rx_before_ext book_title of
        None \<Rightarrow> Inr book_title
      | Some m \<Rightarrow> ebind (py_int (group1 m)) (\<lambda>n.
          Inr (re_sub rx_before_ext_sub ([0x20] @ pad2 n) book_title)))"

definition rx_spaces_before_ext :: rx where
  "rx_spaces_before_ext = Cat (Plus [Space]) (Ahead (Lit (u ''.epub'')))"

definition remove_spaces_before_extension :: "ustr \<Rightarrow> ustr" where
  "remove_spaces_before_extension book_title =
     re_sub rx_spaces_before_ext [] (re_sub rx_spaces [0x20] book_title)"

definition format_book_title :: "ustr \<Rightarrow> error + ustr" where
  "format_book_title book_title =
     ebind (replace_fullwidth_alpha_numeral_to_halfwidth book_title) (\<lambda>t.
     ebind (replace_unsafe_symbol_to_safe_symbol t) (\<lambda>t.
     ebind (replace_fullwidth_round_brackets_to_halfwidth t) (\<lambda>t.
     ebind (pad_numeric_only_string_enclosed_in_round_brackets
              (replace_unnecessary_characters t)) (\<lambda>t.
     ebind (pad_symbol_number 0x2460 0x2468 0x242F (pad_kanji_number t)) (\<lambda>t.
     ebind (pad_symbol_number 0x2474 0x247C 0x2443 t) (\<lambda>t.
     ebind (pad_symbol_number 0x2488 0x2490 0x2457 t) (\<lambda>t.
     ebind (pad_symbol_number 0x24F5 0x24FD 0x24C4 t) (\<lambda>t.
     ebind (pad_before_extension t) (\<lambda>t.
     Inr (remove_spaces_before_extension t))))))))))"

section \<open>Properties of the engine\<close>

subsection \<open>Working rules for the pieces\<close>

fun cons_gap :: "nat \<Rightarrow> piece list \<Rightarrow> piece list" where
  "cons_gap x (Gap g # ps) = Gap (x # g) # ps"
| "cons_gap x ps = Gap [x] # ps"

lemma search_at_here:
  "match_here r must b rest = Some s \<Longrightarrow> search_at r must b rest = Some (b, rest, s)"
  by (cases rest) simp_all

lemma pieces_here:
  assumes "match_here r must b rest = Some (b1, r1, g)"
  shows "pieces r must b rest =
           Gap [] # Hit (take (length rest - length r1) rest)
             # pieces r (length r1 = length rest) b1 r1"
  using search_at_here [OF assms] by (simp add: pieces.simps [of r must b rest])

lemma pieces_end:
  "match_here r must b [] = None \<Longrightarrow> pieces r must b [] = [Gap []]"
  by (simp add: pieces.simps [of r must b "[]"])

lemma pieces_skip:
  assumes "match_here r must b (x # xs) = None"
  shows "pieces r must b (x # xs) = cons_gap x (pieces r False (x # b) xs)"
proof (cases "search_at r False (x # b) xs")
  case None
  with assms show ?thesis
    by (simp add: pieces.simps [of r must b "x # xs"] pieces.simps [of r False "x # b" xs])
next
  case (Some t)
  obtain b0 r0 b1 r1 g where t: "t = (b0, r0, b1, r1, g)" by (cases t) auto
  from search_at_shape [of r False "x # b" xs b0 r0 b1 r1 g] Some t obtain pre where
    "xs = pre @ r0" by auto
  then have "take (Suc (length xs) - length r0) (x # xs) = x # take (length xs - length r0) xs"
    by (simp add: Suc_diff_le)
  with assms Some t show ?thesis
    by (simp add: pieces.simps [of r must b "x # xs"] pieces.simps [of r False "x # b" xs])
qed

lemma concat_cons_gap [simp]:
  "concat (map (piece_text repl) (cons_gap x ps)) = x # concat (map (piece_text repl) ps)"
  by (cases "(x, ps)" rule: cons_gap.cases) simp_all

lemma ebind_assoc: "ebind (ebind m f) h = ebind m (\<lambda>x. ebind (f x) h)"
  by (cases m) simp_all

lemma ebind_Inr_right [simp]: "ebind m Inr = m"
  by (cases m) simp_all

lemma ebind_Inr_iff: "ebind m f = Inr y \<longleftrightarrow> (\<exists>x. m = Inr x \<and> f x = Inr y)"
  by (cases m) simp_all

lemma sub_pieces_cons_gap [simp]:
  "sub_pieces f (cons_gap x ps) = ebind (sub_pieces f ps) (\<lambda>rest. Inr (x # rest))"
  by (cases "(x, ps)" rule: cons_gap.cases) (simp_all add: ebind_assoc)

subsection \<open>Substituting a character class\<close>

lemma match_here_Set:
  "match_here (Set cl) must b rest =
     (case rest of [] \<Rightarrow> None | x # xs \<Rightarrow> if in_class cl x then Some (x # b, xs, None) else None)"
  by (cases rest) (simp_all add: match_here_def)

fun map_class :: "citem list \<Rightarrow> (ustr \<Rightarrow> error + ustr) \<Rightarrow> ustr \<Rightarrow> error + ustr" where
  "map_class cl f [] = Inr []"
| "map_class cl f (c # cs) =
     (if in_class cl c then ebind (f [c]) (\<lambda>x. ebind (map_class cl f cs) (\<lambda>rest. Inr (x @ rest)))
      else ebind (map_class cl f cs) (\<lambda>rest. Inr (c # rest)))"

lemma sub_pieces_Set:
  "sub_pieces f (pieces (Set cl) must b t) = map_class cl f t"
proof (induction t arbitrary: must b)
  case Nil
  show ?case by (simp add: pieces_end match_here_Set)
next
  case (Cons x xs)
  show ?case
  proof (cases "in_class cl x")
    case True
    then have "match_here (Set cl) must b (x # xs) = Some (x # b, xs, None)"
      by (simp add: match_here_Set)
    from pieces_here [OF this] show ?thesis using True Cons.IH by simp
  next
    case False
    then have "match_here (Set cl) must b (x # xs) = None"
      by (simp add: match_here_Set)
    from pieces_skip [OF this] show ?thesis using False Cons.IH by simp
  qed
qed

lemma re_sub_fn_Set: "re_sub_fn (Set cl) f t = map_class cl f t"
  by (simp add: re_sub_fn_def sub_pieces_Set)

lemma map_class_shift:
  assumes "\<And>c. in_class cl c \<Longrightarrow> 0 \<le> int c + d \<and> int c + d < 0x110000"
  shows "map_class cl (shift_char d) t =
           Inr (map (\<lambda>c. if in_class cl c then nat (int c + d) else c) t)"
  by (induction t) (simp_all add: shift_char_def py_chr_def assms)

subsection \<open>The three character rewriters as maps\<close>

lemma in_class_unsafe:
  "in_class (map Ch unsafe_symbols) c \<longleftrightarrow> c \<in> {0x3C, 0x3E, 0x3A, 0x22, 0x2F, 0x5C, 0x7C, 0x21, 0x3F, 0x2A}"
  by (auto simp: in_class_def unsafe_symbols_def)

lemma in_class_fullwidth_alnum:
  "in_class [Rg 0xFF21 0xFF3A, Rg 0xFF41 0xFF5A, Rg 0xFF10 0xFF19] c \<longleftrightarrow>
     0xFF21 \<le> c \<and> c \<le> 0xFF3A \<or> 0xFF41 \<le> c \<and> c \<le> 0xFF5A \<or> 0xFF10 \<le> c \<and> c \<le> 0xFF19"
  by (auto simp: in_class_def)

lemma in_class_fullwidth_brackets:
  "in_class [Ch 0xFF08, Ch 0xFF09] c \<longleftrightarrow> c = 0xFF08 \<or> c = 0xFF09"
  by (auto simp: in_class_def)

definition is_unsafe :: "nat \<Rightarrow> bool" where
  "is_unsafe c = (c \<in> {0x3C, 0x3E, 0x3A, 0x22, 0x2F, 0x5C, 0x7C, 0x21, 0x3F, 0x2A})"

definition is_fullwidth_alnum :: "nat \<Rightarrow> bool" where
  "is_fullwidth_alnum c =
     (0xFF21 \<le> c \<and> c \<le> 0xFF3A \<or> 0xFF41 \<le> c \<and> c \<le> 0xFF5A \<or> 0xFF10 \<le> c \<and> c \<le> 0xFF19)"

lemma replace_unsafe_map:
  "replace_unsafe_symbol_to_safe_symbol t =
     Inr (map (\<lambda>c. if is_unsafe c then c + 0xFEE0 else c) t)"
proof -
  have "map_class (map Ch unsafe_symbols) (shift_char 0xFEE0) t =
          Inr (map (\<lambda>c. if in_class (map Ch unsafe_symbols) c then nat (int c + 0xFEE0) else c) t)"
    by (rule map_class_shift) (auto simp: in_class_unsafe)
  moreover have "nat (int c + 0xFEE0) = c + 0xFEE0" for c by (simp add: nat_add_distrib)
  ultimately show ?thesis
    by (simp add: replace_unsafe_symbol_to_safe_symbol_def rx_unsafe_def re_sub_fn_Set
        in_class_unsafe is_unsafe_def)
qed

lemma replace_fullwidth_alnum_map:
  "replace_fullwidth_alpha_numeral_to_halfwidth t =
     Inr (map (\<lambda>c. if is_fullwidth_alnum c then c - 0xFEE0 else c) t)"
proof -
  let ?cl = "[Rg 0xFF21 0xFF3A, Rg 0xFF41 0xFF5A, Rg 0xFF10 0xFF19]"
  have "map_class ?cl (shift_char (- 0xFEE0)) t =
          Inr (map (\<lambda>c. if in_class ?cl c then nat (int c + (- 0xFEE0)) else c) t)"
    by (rule map_class_shift) (auto simp: in_class_fullwidth_alnum)
  moreover have "nat (int c + (- 0xFEE0)) = c - 0xFEE0" for c by simp
  ultimately show ?thesis
    by (simp add: replace_fullwidth_alpha_numeral_to_halfwidth_def rx_fullwidth_alnum_def
        re_sub_fn_Set in_class_fullwidth_alnum is_fullwidth_alnum_def)
qed

lemma replace_fullwidth_brackets_map:
  "replace_fullwidth_round_brackets_to_halfwidth t =
     Inr (map (\<lambda>c. if c = 0xFF08 \<or> c = 0xFF09 then c - 0xFEE0 else c) t)"
proof -
  let ?cl = "[Ch 0xFF08, Ch 0xFF09]"
  have "map_class ?cl (shift_char (- 0xFEE0)) t =
          Inr (map (\<lambda>c. if in_class ?cl c then nat (int c + (- 0xFEE0)) else c) t)"
    by (rule map_class_shift) (auto simp: in_class_fullwidth_brackets)
  moreover have "nat (int c + (- 0xFEE0)) = c - 0xFEE0" for c by simp
  ultimately show ?thesis
    by (simp add: replace_fullwidth_round_brackets_to_halfwidth_def rx_fullwidth_brackets_def
        re_sub_fn_Set in_class_fullwidth_brackets)
qed

subsection \<open>Evaluating the formatters on a given title\<close>

lemma range_1_11: "[1..<11] = [1, 2, 3, 4, 5, 6, 7, 8, 9, 10::nat]"
  by (simp add: upt_rec)

lemma kanji_values:
  "map py_str [1..<11] @ [u ''10''] =
     [[49], [50], [51], [52], [53], [54], [55], [56], [57], [49, 48], [49, 48]]"
  unfolding range_1_11 by (simp add: py_str.simps u_def)

lemma kanji_mapping_eval:
  "kanji_mapping = map_of (rev (zip kanji_numbers
     [[49], [50], [51], [52], [53], [54], [55], [56], [57], [49, 48], [49, 48]]))"
  unfolding kanji_mapping_def kanji_values ..

lemmas rx_defs = rx_fullwidth_alnum_def rx_unsafe_def rx_fullwidth_brackets_def
  rx_paren_space_def rx_paren_sub_def rx_paren_ext_def rx_paren_ext_sub_def
  rx_kanji_def rx_kanji_sub_def rx_annotation_def rx_annotation_tokens_def rx_label_def
  rx_label_tokens_def rx_colon_def rx_spaces_def
  rx_symbol_def rx_symbol_sub_def rx_before_ext_def rx_before_ext_sub_def
  rx_spaces_before_ext_def kanji_class_def kanji_numbers_def unsafe_symbols_def

lemmas eval_defs = u_def in_class_def is_space_def is_digit_def space_chars_def
  digit_starts_def digit_value_def py_chr_def py_str.simps pieces.simps match_here_def
  re_search_def re_sub_def re_sub_fn_def shift_char_def pad2_def kanji_mapping_eval

lemmas fmt_defs = replace_fullwidth_alpha_numeral_to_halfwidth_def
  replace_unsafe_symbol_to_safe_symbol_def replace_fullwidth_round_brackets_to_halfwidth_def
  pad_round_brackets_space_def pad_round_brackets_ext_def
  pad_numeric_only_string_enclosed_in_round_brackets_def pad_kanji_number_def
  format_book_author_def replace_unnecessary_characters_def pad_symbol_number_def
  pad_before_extension_def remove_spaces_before_extension_def format_book_title_def

subsection \<open>The characters of a substitution\<close>

lemma pieces_chars:
  "p \<in> set (pieces r must b rest) \<Longrightarrow>
     (case p of Gap g \<Rightarrow> set g \<subseteq> set rest | Hit m \<Rightarrow> set m \<subseteq> set rest)"
proof (induction r must b rest arbitrary: p rule: pieces.induct)
  case (1 r must b rest)
  show ?case
  proof (cases "search_at r must b rest")
    case None
    with "1.prems" show ?thesis by (simp add: pieces.simps [of r must b rest])
  next
    case (Some t)
    obtain b0 r0 b1 r1 g where t: "t = (b0, r0, b1, r1, g)" by (cases t) auto
    from search_at_shape [of r must b rest b0 r0 b1 r1 g] Some t obtain pre m where
      sh: "rest = pre @ r0" "r0 = m @ r1" by auto
    have tk: "take (length rest - length r0) rest = pre" "take (length r0 - length r1) r0 = m"
      using sh by simp_all
    from "1.prems" Some t tk have
      "p = Gap pre \<or> p = Hit m \<or> p \<in> set (pieces r (length r1 = length r0) b1 r1)"
      by (simp add: pieces.simps [of r must b rest])
    then show ?thesis
    proof (elim disjE)
      assume "p \<in> set (pieces r (length r1 = length r0) b1 r1)"
      from "1.IH" [OF Some t [symmetric] refl refl refl this, simplified] t
      have "case p of Gap g \<Rightarrow> set g \<subseteq> set r1 | Hit m \<Rightarrow> set m \<subseteq> set r1"
        by simp
      then show ?thesis using sh by (auto split: piece.splits)
    qed (use sh in auto)
  qed
qed

lemma re_sub_chars: "set (re_sub r repl t) \<subseteq> set t \<union> set repl"
proof
  fix c assume "c \<in> set (re_sub r repl t)"
  then obtain p where p: "p \<in> set (pieces r False [] t)" and c: "c \<in> set (piece_text repl p)"
    by (auto simp: re_sub_def)
  from pieces_chars [OF p] c show "c \<in> set t \<union> set repl"
    by (cases p) auto
qed

lemma re_sub_no_match: "re_search r t = None \<Longrightarrow> re_sub r repl t = t"
  by (auto simp: re_search_def re_sub_def pieces.simps [of r False "[]" t] split: option.splits)


subsection \<open>What group 1 captures\<close>

text \<open>
  \<open>consumes P p\<close>: every match of \<open>p\<close> consumes a text with the property \<open>P\<close>;
  \<open>cap_inv P p\<close>: a match of \<open>p\<close> leaves in group 1 a text with the property \<open>P\<close>, if
  there was one before; \<open>cap_sets p\<close>: a match of \<open>p\<close> fills group 1.
\<close>

definition consumes :: "(ustr \<Rightarrow> bool) \<Rightarrow> rx \<Rightarrow> bool" where
  "consumes P p \<longleftrightarrow>
     (\<forall>b r g b' r' g'. (b', r', g') \<in> set (ms p (b, r, g)) \<longrightarrow> P (take (length r - length r') r))"

definition cap_inv :: "(ustr \<Rightarrow> bool) \<Rightarrow> rx \<Rightarrow> bool" where
  "cap_inv P p \<longleftrightarrow>
     (\<forall>b r g b' r' g'. (b', r', g') \<in> set (ms p (b, r, g)) \<longrightarrow>
        (\<forall>w. g = Some w \<longrightarrow> P w) \<longrightarrow> (\<forall>w. g' = Some w \<longrightarrow> P w))"

definition cap_sets :: "rx \<Rightarrow> bool" where
  "cap_sets p \<longleftrightarrow> (\<forall>b r g b' r' g'. (b', r', g') \<in> set (ms p (b, r, g)) \<longrightarrow> g' \<noteq> None)"

lemma ms_keeps_cap:
  "(b', r', g') \<in> set (ms p (b, r, g)) \<Longrightarrow> g \<noteq> None \<Longrightarrow> g' \<noteq> None"
proof (induction p arbitrary: b r g b' r' g')
  case (Cat p q)
  from Cat.prems obtain b1 r1 g1 where
    a: "(b1, r1, g1) \<in> set (ms p (b, r, g))" and c: "(b', r', g') \<in> set (ms q (b1, r1, g1))"
    by auto
  from Cat.IH(2) [OF c] Cat.IH(1) [OF a] Cat.prems(2) show ?case by blast
next
  case (Plus cl)
  then show ?case by (auto dest!: one_shape greedy_shape)
next
  case (LazyPlus cl)
  then show ?case by (auto dest!: one_shape lazy_shape)
qed (auto dest!: one_shape greedy_shape lazy_shape split: if_splits list.splits)

lemma consumes_Plus: "consumes (\<lambda>w. w \<noteq> [] \<and> (\<forall>c\<in>set w. in_class cl c)) (Plus cl)"
  unfolding consumes_def
proof (intro allI impI)
  fix b r g b' r' g'
  assume "(b', r', g') \<in> set (ms (Plus cl) (b, r, g))"
  then obtain s1 where s1: "s1 \<in> set (one cl (b, r, g))" and
     m: "(b', r', g') \<in> set (greedy cl s1)" by auto
  from one_shape [OF s1] obtain x where x: "in_class cl x" "r = x # fst (snd s1)"
    "s1 = (x # b, fst (snd s1), g)" by blast
  from m x(3) have "(b', r', g') \<in> set (greedy cl (x # b, fst (snd s1), g))" by simp
  from greedy_shape [OF this] obtain w where w: "fst (snd s1) = w @ r'" "\<forall>c\<in>set w. in_class cl c"
    by auto
  have "take (length r - length r') r = x # w" using x w by simp
  with x w show "take (length r - length r') r \<noteq> [] \<and> (\<forall>c\<in>set (take (length r - length r') r). in_class cl c)"
    by simp
qed

lemma consumes_Set: "consumes (\<lambda>w. \<exists>c. w = [c] \<and> in_class cl c) (Set cl)"
  unfolding consumes_def by (auto dest!: one_shape)

lemma ms_Cat_elim:
  assumes "s' \<in> set (ms (Cat p q) s)"
  obtains s1 where "s1 \<in> set (ms p s)" "s' \<in> set (ms q s1)"
  using assms by auto

lemma ms_Grp_elim:
  assumes "(b', r', g') \<in> set (ms (Grp p) (b, r, g))"
  obtains g0 where "(b', r', g0) \<in> set (ms p (b, r, g))"
    "g' = Some (take (length r - length r') r)"
  using assms by auto

lemma cap_inv_Grp:
  assumes "consumes P p"
  shows "cap_inv P (Grp p)"
  unfolding cap_inv_def
proof (intro allI impI)
  fix b r g b' r' g' w
  assume "(b', r', g') \<in> set (ms (Grp p) (b, r, g))" and w: "g' = Some w"
  then obtain g0 where "(b', r', g0) \<in> set (ms p (b, r, g))"
    "g' = Some (take (length r - length r') r)" by (elim ms_Grp_elim)
  with assms w show "P w" unfolding consumes_def by blast
qed

lemma cap_inv_Cat:
  assumes "cap_inv P p" "cap_inv P q"
  shows "cap_inv P (Cat p q)"
  unfolding cap_inv_def
proof (intro allI impI)
  fix b r g b' r' g' w
  assume m: "(b', r', g') \<in> set (ms (Cat p q) (b, r, g))"
    and g: "\<forall>w. g = Some w \<longrightarrow> P w" and w: "g' = Some w"
  from m obtain s1 where s1: "s1 \<in> set (ms p (b, r, g))" "(b', r', g') \<in> set (ms q s1)"
    by (elim ms_Cat_elim)
  obtain b1 r1 g1 where e: "s1 = (b1, r1, g1)" by (cases s1) auto
  from assms(1) s1(1) e g have "\<forall>w. g1 = Some w \<longrightarrow> P w" unfolding cap_inv_def by blast
  with assms(2) s1(2) e w show "P w" unfolding cap_inv_def by blast
qed

lemma cap_inv_Alt:
  assumes "cap_inv P p" "cap_inv P q"
  shows "cap_inv P (Alt p q)"
  unfolding cap_inv_def
proof (intro allI impI)
  fix b r g b' r' g' w
  assume m: "(b', r', g') \<in> set (ms (Alt p q) (b, r, g))"
    and g: "\<forall>w. g = Some w \<longrightarrow> P w" and w: "g' = Some w"
  from m have "(b', r', g') \<in> set (ms p (b, r, g)) \<or> (b', r', g') \<in> set (ms q (b, r, g))"
    by simp
  then show "P w"
  proof
    assume "(b', r', g') \<in> set (ms p (b, r, g))"
    with assms(1) g w show ?thesis unfolding cap_inv_def by blast
  next
    assume "(b', r', g') \<in> set (ms q (b, r, g))"
    with assms(2) g w show ?thesis unfolding cap_inv_def by blast
  qed
qed

lemma cap_inv_Opt:
  assumes "cap_inv P p"
  shows "cap_inv P (Opt p)"
  unfolding cap_inv_def
proof (intro allI impI)
  fix b r g b' r' g' w
  assume m: "(b', r', g') \<in> set (ms (Opt p) (b, r, g))"
    and g: "\<forall>w. g = Some w \<longrightarrow> P w" and w: "g' = Some w"
  from m have "(b', r', g') \<in> set (ms p (b, r, g)) \<or> g' = g"
    by auto
  then show "P w"
  proof
    assume "(b', r', g') \<in> set (ms p (b, r, g))"
    with assms(1) g w show ?thesis unfolding cap_inv_def by blast
  next
    assume "g' = g"
    with g w show ?thesis by simp
  qed
qed

lemma cap_inv_same:
  assumes "\<And>b r g b' r' g'. (b', r', g') \<in> set (ms p (b, r, g)) \<Longrightarrow> g' = g"
  shows "cap_inv P p"
  unfolding cap_inv_def
proof (intro allI impI)
  fix b r g b' r' g' w
  assume m: "(b', r', g') \<in> set (ms p (b, r, g))"
    and g: "\<forall>w. g = Some w \<longrightarrow> P w" and w: "g' = Some w"
  from assms [OF m] g w show "P w" by simp
qed

lemma cap_inv_Ahead: "cap_inv P (Ahead p)"
  by (rule cap_inv_same) (auto split: if_splits)

lemma cap_inv_Lit: "cap_inv P (Lit w)"
  by (rule cap_inv_same) (auto split: if_splits)

lemma cap_inv_Set: "cap_inv P (Set cl)"
  by (rule cap_inv_same) (auto dest!: one_shape)

lemma cap_inv_Star: "cap_inv P (Star cl)"
  by (rule cap_inv_same) (auto dest!: greedy_shape)

lemma cap_inv_Plus: "cap_inv P (Plus cl)"
  by (rule cap_inv_same) (auto dest!: one_shape greedy_shape)

lemma cap_inv_LazyStar: "cap_inv P (LazyStar cl)"
  by (rule cap_inv_same) (auto dest!: lazy_shape)

lemma cap_inv_LazyPlus: "cap_inv P (LazyPlus cl)"
  by (rule cap_inv_same) (auto dest!: one_shape lazy_shape)

lemma cap_inv_Behind: "cap_inv P (Behind cl)"
  by (rule cap_inv_same) (auto split: list.splits if_splits)

lemmas cap_inv_intros = cap_inv_Cat cap_inv_Alt cap_inv_Opt cap_inv_Ahead cap_inv_Lit
  cap_inv_Set cap_inv_Star cap_inv_Plus cap_inv_LazyStar cap_inv_LazyPlus cap_inv_Behind

lemma cap_sets_Grp: "cap_sets (Grp p)"
  unfolding cap_sets_def by auto

lemma cap_sets_Cat1:
  assumes "cap_sets p"
  shows "cap_sets (Cat p q)"
  unfolding cap_sets_def
proof (intro allI impI)
  fix b r g b' r' g'
  assume m: "(b', r', g') \<in> set (ms (Cat p q) (b, r, g))"
  from m obtain s1 where s1: "s1 \<in> set (ms p (b, r, g))" "(b', r', g') \<in> set (ms q s1)"
    by (elim ms_Cat_elim)
  obtain b1 r1 g1 where e: "s1 = (b1, r1, g1)" by (cases s1) auto
  from assms s1(1) e have "g1 \<noteq> None" unfolding cap_sets_def by blast
  with ms_keeps_cap [of b' r' g' q b1 r1 g1] s1(2) e show "g' \<noteq> None" by simp
qed

lemma cap_sets_Cat2:
  assumes "cap_sets q"
  shows "cap_sets (Cat p q)"
  unfolding cap_sets_def
proof (intro allI impI)
  fix b r g b' r' g'
  assume m: "(b', r', g') \<in> set (ms (Cat p q) (b, r, g))"
  from m obtain s1 where s1: "s1 \<in> set (ms p (b, r, g))" "(b', r', g') \<in> set (ms q s1)"
    by (elim ms_Cat_elim)
  obtain b1 r1 g1 where e: "s1 = (b1, r1, g1)" by (cases s1) auto
  with assms s1(2) show "g' \<noteq> None" unfolding cap_sets_def by blast
qed

lemma search_at_cap:
  assumes "cap_inv P r" "cap_sets r" "search_at r must b t = Some (b0, r0, b1, r1, g)"
  shows "\<exists>w. g = Some w \<and> P w"
proof -
  from search_at_shape [OF assms(3)] have m: "(b1, r1, g) \<in> set (ms r (b0, r0, None))" by blast
  from assms(2) m have "g \<noteq> None" unfolding cap_sets_def by blast
  moreover from assms(1) m have "\<forall>w. g = Some w \<longrightarrow> P w" unfolding cap_inv_def by blast
  ultimately show ?thesis by auto
qed

lemma re_search_cap:
  assumes "cap_inv P r" "cap_sets r" "re_search r t = Some m"
  shows "\<exists>w. group1 m = Some w \<and> P w"
proof -
  from assms(3) obtain b0 r0 b1 r1 g where
    s: "search_at r False [] t = Some (b0, r0, b1, r1, g)" and m: "group1 m = g"
    by (auto simp: re_search_def split: option.splits)
  from search_at_cap [OF assms(1,2) s] m show ?thesis by simp
qed

subsection \<open>The number tokens\<close>

lemma digit_value_in_None:
  "digit_value_in ss c = None \<longleftrightarrow> \<not> list_ex (\<lambda>s. s \<le> c \<and> c < s + 10) ss"
  by (induction ss) auto

lemma digit_value_Some: "is_digit c \<Longrightarrow> \<exists>d. digit_value c = Some d"
  using digit_value_in_None [of digit_starts c] by (auto simp: is_digit_def digit_value_def)

lemma int_digits_total: "\<forall>c\<in>set w. is_digit c \<Longrightarrow> \<exists>n. int_digits acc w = Inr n"
proof (induction w arbitrary: acc)
  case Nil
  show ?case by simp
next
  case (Cons c cs)
  from Cons.prems digit_value_Some [of c] obtain d where "digit_value c = Some d" by auto
  with Cons.IH [of "10 * acc + d"] Cons.prems show ?case by auto
qed

lemma py_int_total:
  "w \<noteq> [] \<Longrightarrow> \<forall>c\<in>set w. is_digit c \<Longrightarrow> \<exists>n. py_int (Some w) = Inr n"
  using int_digits_total [of w 0] by (cases w) auto

definition is_ascii_digit :: "nat \<Rightarrow> bool" where
  "is_ascii_digit c = (0x30 \<le> c \<and> c \<le> 0x39)"

lemma py_str_digits: "\<forall>c\<in>set (py_str n). is_ascii_digit c"
proof (induction n rule: py_str.induct)
  case (1 n)
  show ?case
  proof (cases "n < 10")
    case True
    then show ?thesis by (simp add: py_str.simps [of n] is_ascii_digit_def)
  next
    case False
    have "n mod 10 < 10" by simp
    then have "is_ascii_digit (0x30 + n mod 10)" unfolding is_ascii_digit_def by linarith
    with False "1.IH" show ?thesis by (simp add: py_str.simps [of n])
  qed
qed


lemma zfill_chars: "set (zfill w s) \<subseteq> set s \<union> {0x30}"
  by (cases s) auto


lemma pad2_digits: "\<forall>c\<in>set (pad2 n). is_ascii_digit c"
  using zfill_chars [of 2 "py_str n"] py_str_digits [of n]
  by (auto simp: pad2_def is_ascii_digit_def)


text \<open>The characters a numbering rule can put into a title.\<close>

definition token_char :: "nat \<Rightarrow> bool" where
  "token_char c = (c = 0x20 \<or> is_ascii_digit c \<or> c \<in> set (u ''None''))"

lemma kanji_mapping_values:
  "kanji_mapping k = Some v \<Longrightarrow> \<forall>c\<in>set v. is_ascii_digit c"
  unfolding kanji_mapping_eval
  by (drule map_of_SomeD) (auto simp: kanji_numbers_def is_ascii_digit_def)

lemma kanji_token_chars:
  "\<forall>c\<in>set ([0x20] @ fmt_opt (dict_get kanji_mapping g) @ [0x20]). token_char c"
proof (cases "dict_get kanji_mapping g")
  case None
  then show ?thesis by (simp add: token_char_def)
next
  case (Some v)
  then obtain k where "kanji_mapping k = Some v" by (cases g) auto
  from kanji_mapping_values [OF this] Some show ?thesis by (auto simp: token_char_def)
qed

subsection \<open>What the searched patterns capture\<close>

definition digit_run :: "ustr \<Rightarrow> bool" where
  "digit_run w = (w \<noteq> [] \<and> (\<forall>c\<in>set w. is_digit c))"

lemma in_class_Digit [simp]: "in_class [Digit] c = is_digit c"
  by (simp add: in_class_def)

lemma in_class_Space [simp]: "in_class [Space] c = is_space c"
  by (simp add: in_class_def)

lemma in_class_Rg [simp]: "in_class [Rg lo hi] c = (lo \<le> c \<and> c \<le> hi)"
  by (simp add: in_class_def)

lemma consumes_digits: "consumes digit_run (Plus [Digit])"
  using consumes_Plus [of "[Digit]"] by (simp add: digit_run_def [abs_def])

lemma cap_paren_space: "cap_inv digit_run rx_paren_space" "cap_sets rx_paren_space"
  unfolding rx_paren_space_def
  by (simp_all add: cap_inv_intros cap_inv_Grp consumes_digits cap_sets_Cat1 cap_sets_Cat2 cap_sets_Grp)



lemma cap_symbol:
  "cap_inv (\<lambda>w. \<exists>c. w = [c] \<and> lo \<le> c \<and> c \<le> hi) (rx_symbol lo hi)" "cap_sets (rx_symbol lo hi)"
  unfolding rx_symbol_def
  using consumes_Set [of "[Rg lo hi]"]
  by (simp_all add: cap_inv_intros cap_inv_Grp cap_sets_Cat1 cap_sets_Cat2 cap_sets_Grp)


subsection \<open>Every stage returns, and what characters it can add\<close>

lemma token_char_pad2: "\<forall>c\<in>set ([0x20] @ pad2 n @ [0x20]). token_char c"
  "\<forall>c\<in>set ([0x20] @ pad2 n). token_char c"
  using pad2_digits [of n] by (auto simp: token_char_def)

lemma re_sub_token:
  assumes "\<forall>c\<in>set repl. token_char c"
  shows "\<forall>c\<in>set (re_sub r repl t). c \<in> set t \<or> token_char c"
  using re_sub_chars [of r repl t] assms by auto

lemma pad_round_brackets_space_total:
  "\<exists>r. pad_round_brackets_space t = Inr r \<and> (\<forall>c\<in>set r. c \<in> set t \<or> token_char c)"
proof (cases "re_search rx_paren_space t")
  case None
  then show ?thesis by (simp add: pad_round_brackets_space_def)
next
  case (Some m)
  from re_search_cap [OF cap_paren_space Some] obtain w where
    w: "group1 m = Some w" "digit_run w" by blast
  then obtain n where "py_int (Some w) = Inr n"
    using py_int_total [of w] by (auto simp: digit_run_def)
  with Some w re_sub_token [OF token_char_pad2(1)] show ?thesis
    by (simp add: pad_round_brackets_space_def)
qed




lemma pad_symbol_number_total:
  assumes "0x31 \<le> int lo - off" "int hi - off \<le> 0x39"
  shows "\<exists>r. pad_symbol_number lo hi off t = Inr r \<and> (\<forall>c\<in>set r. c \<in> set t \<or> token_char c)"
proof (cases "re_search (rx_symbol lo hi) t")
  case None
  then show ?thesis by (simp add: pad_symbol_number_def)
next
  case (Some m)
  from re_search_cap [OF cap_symbol Some] obtain c where
    c: "group1 m = Some [c]" "lo \<le> c" "c \<le> hi" by blast
  let ?d = "nat (int c - off)"
  from c assms have d: "0x31 \<le> int c - off" "int c - off \<le> 0x39" by linarith+
  then have chr: "py_chr (int c - off) = Inr [?d]" by (simp add: py_chr_def)
  from d have "is_ascii_digit ?d" unfolding is_ascii_digit_def by linarith
  then have "\<forall>x\<in>set ([0x20] @ zfill 2 [?d] @ [0x20]). token_char x"
    using zfill_chars [of 2 "[?d]"] by (auto simp: token_char_def is_ascii_digit_def)
  from re_sub_token [OF this] Some c chr show ?thesis
    by (simp add: pad_symbol_number_def)
qed




text \<open>The text that reaches the numbering rules, and the rules one after the other.\<close>

definition prepare_title :: "ustr \<Rightarrow> ustr" where
  "prepare_title t =
     replace_unnecessary_characters
       (map (\<lambda>c. if c = 0xFF08 \<or> c = 0xFF09 then c - 0xFEE0 else c)
         (map (\<lambda>c. if is_unsafe c then c + 0xFEE0 else c)
           (map (\<lambda>c. if is_fullwidth_alnum c then c - 0xFEE0 else c) t)))"

definition pad_numbers :: "ustr \<Rightarrow> error + ustr" where
  "pad_numbers t =
     ebind (pad_numeric_only_string_enclosed_in_round_brackets t) (\<lambda>t.
     ebind (pad_symbol_number 0x2460 0x2468 0x242F (pad_kanji_number t)) (\<lambda>t.
     ebind (pad_symbol_number 0x2474 0x247C 0x2443 t) (\<lambda>t.
     ebind (pad_symbol_number 0x2488 0x2490 0x2457 t) (\<lambda>t.
     ebind (pad_symbol_number 0x24F5 0x24FD 0x24C4 t) pad_before_extension))))"

lemma format_book_title_stages:
  "format_book_title t =
     ebind (pad_numbers (prepare_title t)) (\<lambda>t. Inr (remove_spaces_before_extension t))"
  by (simp add: format_book_title_def pad_numbers_def prepare_title_def
      replace_fullwidth_alnum_map replace_unsafe_map replace_fullwidth_brackets_map ebind_assoc
      del: map_map)



subsection \<open>The characters of a formatted title\<close>







subsection \<open>The value of a padded number\<close>







subsection \<open>What a rule does when it fires\<close>

lemma pad_round_brackets_space_fires:
  assumes "re_search rx_paren_space t = Some m"
  shows "\<exists>n. py_int (group1 m) = Inr n
           \<and> pad_round_brackets_space t = Inr (re_sub rx_paren_sub ([0x20] @ pad2 n @ [0x20]) t)"
proof -
  from re_search_cap [OF cap_paren_space assms] obtain w where
    w: "group1 m = Some w" "digit_run w" by blast
  then obtain n where "py_int (Some w) = Inr n"
    using py_int_total [of w] by (auto simp: digit_run_def)
  with assms w show ?thesis by (simp add: pad_round_brackets_space_def)
qed



lemma pad2_small: "n < 10 \<Longrightarrow> pad2 n = [0x30, 0x30 + n]"
  by (simp add: pad2_def py_str.simps [of n])

lemma pad_symbol_number_fires:
  assumes "re_search (rx_symbol lo hi) t = Some m" "int lo - off = 0x31" "hi \<le> lo + 8"
  shows "\<exists>c. group1 m = Some [c] \<and> lo \<le> c \<and> c \<le> hi
           \<and> pad_symbol_number lo hi off t =
               Inr (re_sub (rx_symbol_sub lo hi) ([0x20] @ pad2 (c - lo + 1) @ [0x20]) t)"
proof -
  from re_search_cap [OF cap_symbol assms(1)] obtain c where
    c: "group1 m = Some [c]" "lo \<le> c" "c \<le> hi" by blast
  let ?n = "c - lo + 1"
  from c assms have d: "int c - off = 0x30 + int ?n" "?n < 10" by linarith+
  then have chr: "py_chr (int c - off) = Inr [0x30 + ?n]"
    by (simp add: py_chr_def nat_add_distrib)
  have "zfill 2 [0x30 + ?n] = pad2 ?n" using d(2) by (simp add: pad2_small)
  with assms(1) c chr show ?thesis
    by (auto simp: pad_symbol_number_def)
qed

subsection \<open>Group 1 is cut out of the text\<close>



subsection \<open>The kanji rule\<close>



lemma kanji_mapping_bar: "kanji_mapping [0x7C] = None"
  by (simp add: kanji_mapping_eval kanji_numbers_def)




subsection \<open>Titles evaluated\<close>


lemma eval_paren_mid: "format_book_title (u ''Title (1) Sub.epub'') = Inr (u ''Title 01 Sub.epub'')"
  by (simp add: fmt_defs rx_defs eval_defs)

lemma eval_paren_ext: "format_book_title (u ''Title(12).epub'') = Inr (u ''Title 12.epub'')"
  by (simp add: fmt_defs rx_defs eval_defs)

lemma eval_kanji_volume:
  "format_book_title (u ''Title '' @ [0x53C2] @ u '' '' @ [0x5DFB] @ u ''.epub'') =
     Inr (u ''Title 03.epub'')"
  by (simp add: fmt_defs rx_defs eval_defs)

lemma eval_circled: "format_book_title (u ''Title'' @ [0x2460] @ u ''.epub'') = Inr (u ''Title 01.epub'')"
  by (simp add: fmt_defs rx_defs eval_defs)





subsection \<open>Occurrences of a word in a text\<close>

fun occurs :: "ustr \<Rightarrow> ustr \<Rightarrow> bool" where
  "occurs w [] = (w = [])"
| "occurs w (x # xs) = (take (length w) (x # xs) = w \<or> occurs w xs)"

lemma occurs_iff: "occurs w t \<longleftrightarrow> (\<exists>a b. t = a @ w @ b)"
proof (induction t)
  case Nil
  show ?case by auto
next
  case (Cons x xs)
  show ?case
  proof
    assume "occurs w (x # xs)"
    then have "take (length w) (x # xs) = w \<or> occurs w xs" by simp
    then show "\<exists>a b. x # xs = a @ w @ b"
    proof
      assume "take (length w) (x # xs) = w"
      then have "x # xs = [] @ w @ drop (length w) (x # xs)"
        by (metis append_Nil append_take_drop_id)
      then show ?thesis by blast
    next
      assume "occurs w xs"
      with Cons.IH obtain a b where "xs = a @ w @ b" by blast
      then have "x # xs = (x # a) @ w @ b" by simp
      then show ?thesis by blast
    qed
  next
    assume "\<exists>a b. x # xs = a @ w @ b"
    then obtain a b where e: "x # xs = a @ w @ b" by blast
    show "occurs w (x # xs)"
    proof (cases a)
      case Nil
      with e have "take (length w) (x # xs) = w" by simp
      then show ?thesis by simp
    next
      case (Cons y ys)
      with e have "xs = ys @ w @ b" by simp
      with Cons.IH show ?thesis by auto
    qed
  qed
qed

lemma occurs_append: "occurs w t \<Longrightarrow> occurs w (a @ t @ b)"
  unfolding occurs_iff by (metis append.assoc)

lemma occurs_around:
  assumes "occurs w (x @ repl @ y)" "repl \<noteq> []" "hd repl \<notin> set w" "w \<noteq> []" "hd w \<notin> set repl"
  shows "occurs w x \<or> occurs w y"
proof -
  from assms(1) obtain a b where e: "x @ repl @ y = a @ w @ b" unfolding occurs_iff by blast
  from e [unfolded append_eq_append_conv2 [of x "repl @ y" a "w @ b"]] obtain us where
    "(x = a @ us \<and> us @ repl @ y = w @ b) \<or> (x @ us = a \<and> repl @ y = us @ w @ b)"
    by blast
  then show ?thesis
  proof
    assume h: "x = a @ us \<and> us @ repl @ y = w @ b"
    then have "us @ repl @ y = w @ b" by simp
    from this [unfolded append_eq_append_conv2 [of us "repl @ y" w b]] obtain vs where
      "(us = w @ vs \<and> vs @ repl @ y = b) \<or> (us @ vs = w \<and> repl @ y = vs @ b)"
      by blast
    then show ?thesis
    proof
      assume "us = w @ vs \<and> vs @ repl @ y = b"
      with h have "x = a @ w @ vs" by simp
      then show ?thesis unfolding occurs_iff by blast
    next
      assume k: "us @ vs = w \<and> repl @ y = vs @ b"
      show ?thesis
      proof (cases vs)
        case Nil
        with k h have "x = a @ w @ []" by simp
        then show ?thesis unfolding occurs_iff by blast
      next
        case (Cons v vs')
        with k assms(2) have "hd repl = v" by (cases repl) auto
        moreover from k Cons have "v \<in> set w" by auto
        ultimately show ?thesis using assms(3) by simp
      qed
    qed
  next
    assume h: "x @ us = a \<and> repl @ y = us @ w @ b"
    then have "repl @ y = us @ w @ b" by simp
    from this [unfolded append_eq_append_conv2 [of repl y us "w @ b"]] obtain vs where
      "(repl = us @ vs \<and> vs @ y = w @ b) \<or> (repl @ vs = us \<and> y = vs @ w @ b)"
      by blast
    then show ?thesis
    proof
      assume k: "repl = us @ vs \<and> vs @ y = w @ b"
      show ?thesis
      proof (cases vs)
        case Nil
        with k have "y = [] @ w @ b" by simp
        then show ?thesis unfolding occurs_iff by blast
      next
        case (Cons v vs')
        with k assms(4) have "hd w = v" by (cases w) auto
        moreover from k Cons have "v \<in> set repl" by auto
        ultimately show ?thesis using assms(5) by simp
      qed
    next
      assume "repl @ vs = us \<and> y = vs @ w @ b"
      then show ?thesis unfolding occurs_iff by blast
    qed
  qed
qed

lemma pieces_occurs:
  assumes "repl \<noteq> []" "hd repl \<notin> set w" "w \<noteq> []" "hd w \<notin> set repl"
  shows "occurs w (concat (map (piece_text repl) (pieces r must b rest))) \<Longrightarrow> occurs w rest"
proof (induction r must b rest rule: pieces.induct)
  case (1 r must b rest)
  show ?case
  proof (cases "search_at r must b rest")
    case None
    with "1.prems" show ?thesis by (simp add: pieces.simps [of r must b rest])
  next
    case (Some t)
    obtain b0 r0 b1 r1 g where t: "t = (b0, r0, b1, r1, g)" by (cases t) auto
    from search_at_shape [of r must b rest b0 r0 b1 r1 g] Some t obtain pre m where
      sh: "rest = pre @ r0" "r0 = m @ r1" by auto
    have tk: "take (length rest - length r0) rest = pre" using sh by simp
    let ?o = "concat (map (piece_text repl) (pieces r (length r1 = length r0) b1 r1))"
    from "1.prems" Some t tk have "occurs w (pre @ repl @ ?o)"
      by (simp add: pieces.simps [of r must b rest])
    from occurs_around [OF this assms] have "occurs w pre \<or> occurs w ?o" .
    then show ?thesis
    proof
      assume "occurs w pre"
      then have "occurs w ([] @ pre @ (m @ r1))" by (rule occurs_append)
      with sh show ?thesis by simp
    next
      assume "occurs w ?o"
      from "1.IH" [OF Some t [symmetric] refl refl refl this]
      have "occurs w r1" .
      then have "occurs w ((pre @ m) @ r1 @ [])" by (rule occurs_append)
      with sh show ?thesis by simp
    qed
  qed
qed

lemma re_sub_occurs:
  assumes "occurs w (re_sub r repl t)" "repl \<noteq> []" "hd repl \<notin> set w" "w \<noteq> []" "hd w \<notin> set repl"
  shows "occurs w t"
  using pieces_occurs [OF assms(2-5)] assms(1) unfolding re_sub_def by blast

subsection \<open>Patterns that need a word\<close>

fun needs :: "ustr \<Rightarrow> rx \<Rightarrow> bool" where
  "needs w (Lit v) = (v = w)"
| "needs w (Cat p q) = (needs w p \<or> needs w q)"
| "needs w (Alt p q) = (needs w p \<and> needs w q)"
| "needs w (Grp p) = needs w p"
| "needs w (Ahead p) = needs w p"
| "needs w _ = False"

lemma needs_occurs: "needs w p \<Longrightarrow> ms p (b, r, g) \<noteq> [] \<Longrightarrow> occurs w r"
proof (induction p arbitrary: b r g)
  case (Lit v)
  then have "take (length w) r = w" by (auto split: if_splits)
  then have "r = [] @ w @ drop (length w) r" by (metis append_Nil append_take_drop_id)
  then show ?case unfolding occurs_iff by blast
next
  case (Cat p q)
  from Cat.prems(2) obtain s1 where s1: "s1 \<in> set (ms p (b, r, g))" "ms q s1 \<noteq> []"
    by auto
  obtain b1 r1 g1 where e: "s1 = (b1, r1, g1)" by (cases s1) auto
  from Cat.prems(1) have "needs w p \<or> needs w q" by simp
  then show ?case
  proof
    assume "needs w p"
    moreover from s1(1) have "ms p (b, r, g) \<noteq> []" by auto
    ultimately show ?thesis by (rule Cat.IH(1))
  next
    assume "needs w q"
    from Cat.IH(2) [OF this] s1(2) e have "occurs w r1" by blast
    moreover from ms_suffix [of b1 r1 g1 p b r g] s1(1) e obtain v where "r = v @ r1" by auto
    ultimately show ?thesis using occurs_append [of w r1 v "[]"] by simp
  qed
next
  case (Alt p q)
  from Alt.prems have "ms p (b, r, g) \<noteq> [] \<or> ms q (b, r, g) \<noteq> []" by simp
  with Alt.IH Alt.prems(1) show ?case by auto
next
  case (Grp p)
  then show ?case by auto
next
  case (Ahead p)
  from Ahead.prems have "ms p (b, r, g) \<noteq> []" by (auto split: if_splits)
  with Ahead.IH Ahead.prems(1) show ?case by auto
qed simp_all

lemma match_here_needs:
  assumes "needs w p" "\<not> occurs w t"
  shows "match_here p must b t = None"
proof -
  have "ms p (b, t, None) = []" using needs_occurs [OF assms(1), of b t None] assms(2) by blast
  then show ?thesis by (simp add: match_here_def)
qed

lemma search_at_needs: "needs w p \<Longrightarrow> \<not> occurs w t \<Longrightarrow> search_at p must b t = None"
proof (induction t arbitrary: must b)
  case Nil
  then show ?case by (simp add: match_here_needs)
next
  case (Cons x xs)
  from Cons.prems(2) have "\<not> occurs w xs" by auto
  with Cons show ?case by (simp add: match_here_needs)
qed

lemma re_search_needs: "needs w p \<Longrightarrow> \<not> occurs w t \<Longrightarrow> re_search p t = None"
  by (simp add: re_search_def search_at_needs)

subsection \<open>Patterns that need a character\<close>

fun needs_char :: "(nat \<Rightarrow> bool) \<Rightarrow> rx \<Rightarrow> bool" where
  "needs_char P (Lit v) = (\<exists>c\<in>set v. P c)"
| "needs_char P (Set cl) = (\<forall>c. in_class cl c \<longrightarrow> P c)"
| "needs_char P (Plus cl) = (\<forall>c. in_class cl c \<longrightarrow> P c)"
| "needs_char P (LazyPlus cl) = (\<forall>c. in_class cl c \<longrightarrow> P c)"
| "needs_char P (Cat p q) = (needs_char P p \<or> needs_char P q)"
| "needs_char P (Alt p q) = (needs_char P p \<and> needs_char P q)"
| "needs_char P (Grp p) = needs_char P p"
| "needs_char P (Ahead p) = needs_char P p"
| "needs_char P _ = False"

lemma needs_char_found:
  "needs_char P p \<Longrightarrow> ms p (b, r, g) \<noteq> [] \<Longrightarrow> \<exists>c\<in>set r. P c"
proof (induction p arbitrary: b r g)
  case (Lit v)
  then have "take (length v) r = v" by (auto split: if_splits)
  then have "set v \<subseteq> set r" by (metis set_take_subset)
  with Lit.prems(1) show ?case by auto
next
  case (Set cl)
  from Set.prems(2) obtain s' where "s' \<in> set (one cl (b, r, g))" by (cases "one cl (b, r, g)") auto
  from one_shape [OF this] Set.prems(1) show ?case by auto
next
  case (Plus cl)
  from Plus.prems(2) obtain s' where "s' \<in> set (one cl (b, r, g))"
    by (cases "one cl (b, r, g)") auto
  from one_shape [OF this] Plus.prems(1) show ?case by auto
next
  case (LazyPlus cl)
  from LazyPlus.prems(2) obtain s' where "s' \<in> set (one cl (b, r, g))"
    by (cases "one cl (b, r, g)") auto
  from one_shape [OF this] LazyPlus.prems(1) show ?case by auto
next
  case (Cat p q)
  from Cat.prems(2) obtain s1 where s1: "s1 \<in> set (ms p (b, r, g))" "ms q s1 \<noteq> []"
    by auto
  obtain b1 r1 g1 where e: "s1 = (b1, r1, g1)" by (cases s1) auto
  from Cat.prems(1) have "needs_char P p \<or> needs_char P q" by simp
  then show ?case
  proof
    assume "needs_char P p"
    moreover from s1(1) have "ms p (b, r, g) \<noteq> []" by auto
    ultimately show ?thesis by (rule Cat.IH(1))
  next
    assume "needs_char P q"
    from Cat.IH(2) [OF this] s1(2) e have "\<exists>c\<in>set r1. P c" by blast
    moreover from ms_suffix [of b1 r1 g1 p b r g] s1(1) e obtain v where "r = v @ r1" by auto
    ultimately show ?thesis by auto
  qed
next
  case (Alt p q)
  from Alt.prems have "ms p (b, r, g) \<noteq> [] \<or> ms q (b, r, g) \<noteq> []" by simp
  with Alt.IH Alt.prems(1) show ?case by auto
next
  case (Grp p)
  then show ?case by auto
next
  case (Ahead p)
  from Ahead.prems have "ms p (b, r, g) \<noteq> []" by (auto split: if_splits)
  with Ahead.IH Ahead.prems(1) show ?case by auto
qed simp_all

lemma match_here_needs_char:
  assumes "needs_char P p" "\<forall>c\<in>set t. \<not> P c"
  shows "match_here p must b t = None"
proof -
  have "ms p (b, t, None) = []" using needs_char_found [OF assms(1), of b t None] assms(2) by blast
  then show ?thesis by (simp add: match_here_def)
qed

lemma search_at_needs_char:
  "needs_char P p \<Longrightarrow> \<forall>c\<in>set t. \<not> P c \<Longrightarrow> search_at p must b t = None"
proof (induction t arbitrary: must b)
  case Nil
  then show ?case by (simp add: match_here_needs_char)
next
  case (Cons x xs)
  then show ?case by (simp add: match_here_needs_char)
qed

lemma re_search_needs_char:
  "needs_char P p \<Longrightarrow> \<forall>c\<in>set t. \<not> P c \<Longrightarrow> re_search p t = None"
  by (simp add: re_search_def search_at_needs_char)

subsection \<open>Titles without the extension\<close>

definition epub :: ustr where
  "epub = u ''.epub''"

lemma epub_chars: "epub = [0x2E, 0x65, 0x70, 0x75, 0x62]"
  by (simp add: epub_def u_def)

lemma needs_epub:
  "needs epub rx_paren_ext" "needs epub rx_before_ext" "needs epub rx_spaces_before_ext"
  by (simp_all add: rx_paren_ext_def rx_before_ext_def rx_spaces_before_ext_def epub_def)

lemma no_epub_rules:
  assumes "\<not> occurs epub s"
  shows "pad_round_brackets_ext s = Inr s" "pad_before_extension s = Inr s"
    "re_sub rx_spaces_before_ext [] s = s"
  using assms
  by (simp_all add: pad_round_brackets_ext_def pad_before_extension_def
      re_search_needs [OF needs_epub(1)] re_search_needs [OF needs_epub(2)]
      re_sub_no_match [OF re_search_needs [OF needs_epub(3)]])

lemma token_keeps_no_epub:
  assumes "\<not> occurs epub s" "hd repl = 0x20" "repl \<noteq> []" "\<forall>c\<in>set repl. token_char c"
  shows "\<not> occurs epub (re_sub r repl s)"
proof
  assume o: "occurs epub (re_sub r repl s)"
  have "hd repl \<notin> set epub" using assms(2) by (simp add: epub_chars)
  moreover have "epub \<noteq> []" by (simp add: epub_chars)
  moreover have "hd epub \<notin> set repl"
    using assms(4) by (auto simp: epub_chars token_char_def is_ascii_digit_def u_def)
  ultimately have "occurs epub s" using re_sub_occurs [OF o assms(3)] by blast
  with assms(1) show False by simp
qed

lemma pad_round_brackets_space_no_epub:
  assumes "\<not> occurs epub s" "pad_round_brackets_space s = Inr s'"
  shows "\<not> occurs epub s'"
proof (cases "re_search rx_paren_space s")
  case None
  with assms show ?thesis by (simp add: pad_round_brackets_space_def)
next
  case (Some m)
  from pad_round_brackets_space_fires [OF Some] assms(2) obtain n where
    "s' = re_sub rx_paren_sub ([0x20] @ pad2 n @ [0x20]) s" by auto
  with token_keeps_no_epub [OF assms(1), of "[0x20] @ pad2 n @ [0x20]" rx_paren_sub]
    token_char_pad2(1) [of n] show ?thesis by simp
qed

lemma pad_kanji_number_no_epub:
  assumes "\<not> occurs epub s"
  shows "\<not> occurs epub (pad_kanji_number s)"
proof (cases "re_search rx_kanji s")
  case None
  with assms show ?thesis by (simp add: pad_kanji_number_def)
next
  case (Some m)
  let ?tok = "[0x20] @ fmt_opt (dict_get kanji_mapping (group1 m)) @ [0x20]"
  from Some have "pad_kanji_number s = re_sub rx_kanji_sub ?tok s"
    by (simp add: pad_kanji_number_def)
  with token_keeps_no_epub [OF assms, of ?tok rx_kanji_sub] kanji_token_chars [of "group1 m"]
  show ?thesis by simp
qed

lemma pad_symbol_number_no_epub:
  assumes "\<not> occurs epub s" "pad_symbol_number lo hi off s = Inr s'"
    "int lo - off = 0x31" "hi \<le> lo + 8"
  shows "\<not> occurs epub s'"
proof (cases "re_search (rx_symbol lo hi) s")
  case None
  with assms show ?thesis by (simp add: pad_symbol_number_def)
next
  case (Some m)
  from pad_symbol_number_fires [OF Some assms(3,4)] assms(2) obtain c where
    "s' = re_sub (rx_symbol_sub lo hi) ([0x20] @ pad2 (c - lo + 1) @ [0x20]) s" by auto
  with token_keeps_no_epub [OF assms(1), of "[0x20] @ pad2 (c - lo + 1) @ [0x20]" "rx_symbol_sub lo hi"]
    token_char_pad2(1) [of "c - lo + 1"] show ?thesis by simp
qed

lemma spaces_no_epub:
  assumes "\<not> occurs epub s"
  shows "\<not> occurs epub (re_sub r [0x20] s)"
  using token_keeps_no_epub [OF assms, of "[0x20]" r] by (simp add: token_char_def)

lemma no_epub_pipeline:
  assumes "\<not> occurs epub (prepare_title t)"
  shows "format_book_title t =
     ebind (pad_round_brackets_space (prepare_title t)) (\<lambda>t.
     ebind (pad_symbol_number 0x2460 0x2468 0x242F (pad_kanji_number t)) (\<lambda>t.
     ebind (pad_symbol_number 0x2474 0x247C 0x2443 t) (\<lambda>t.
     ebind (pad_symbol_number 0x2488 0x2490 0x2457 t) (\<lambda>t.
     ebind (pad_symbol_number 0x24F5 0x24FD 0x24C4 t) (\<lambda>t.
     Inr (re_sub rx_spaces [0x20] t))))))"
proof -
  let ?p = "prepare_title t"
  from pad_round_brackets_space_total [of ?p] obtain r1 where
    r1: "pad_round_brackets_space ?p = Inr r1" by blast
  from pad_round_brackets_space_no_epub [OF assms r1] have n1: "\<not> occurs epub r1" .
  have n2: "\<not> occurs epub (pad_kanji_number r1)" by (rule pad_kanji_number_no_epub [OF n1])
  from pad_symbol_number_total [where lo="0x2460" and off="0x242F" and hi="0x2468"
      and t="pad_kanji_number r1"] obtain r3 where
    r3: "pad_symbol_number 0x2460 0x2468 0x242F (pad_kanji_number r1) = Inr r3" by auto
  from pad_symbol_number_no_epub [OF n2 r3] have n3: "\<not> occurs epub r3" by simp
  from pad_symbol_number_total [where lo="0x2474" and off="0x2443" and hi="0x247C" and t=r3]
  obtain r4 where r4: "pad_symbol_number 0x2474 0x247C 0x2443 r3 = Inr r4" by auto
  from pad_symbol_number_no_epub [OF n3 r4] have n4: "\<not> occurs epub r4" by simp
  from pad_symbol_number_total [where lo="0x2488" and off="0x2457" and hi="0x2490" and t=r4]
  obtain r5 where r5: "pad_symbol_number 0x2488 0x2490 0x2457 r4 = Inr r5" by auto
  from pad_symbol_number_no_epub [OF n4 r5] have n5: "\<not> occurs epub r5" by simp
  from pad_symbol_number_total [where lo="0x24F5" and off="0x24C4" and hi="0x24FD" and t=r5]
  obtain r6 where r6: "pad_symbol_number 0x24F5 0x24FD 0x24C4 r5 = Inr r6" by auto
  from pad_symbol_number_no_epub [OF n5 r6] have n6: "\<not> occurs epub r6" by simp
  have n7: "\<not> occurs epub (re_sub rx_spaces [0x20] r6)" by (rule spaces_no_epub [OF n6])
  have "format_book_title t = Inr (re_sub rx_spaces [0x20] r6)"
    by (simp add: format_book_title_stages pad_numbers_def
        pad_numeric_only_string_enclosed_in_round_brackets_def r1 r3 r4 r5 r6
        no_epub_rules [OF n1] no_epub_rules [OF n6] no_epub_rules(3) [OF n7]
        remove_spaces_before_extension_def)
  then show ?thesis by (simp add: r1 r3 r4 r5 r6)
qed

lemma occurs_map:
  assumes "\<forall>c\<in>set t. f c \<in> set w \<longrightarrow> f c = c" "occurs w (map f t)"
  shows "occurs w t"
proof -
  from assms(2) obtain a b where h: "map f t = a @ w @ b" unfolding occurs_iff by blast
  from h [unfolded map_eq_append_conv] obtain a' t' where
    1: "t = a' @ t'" "w @ b = map f t'" by blast
  from 1(2) [symmetric, unfolded map_eq_append_conv] obtain w' b' where
    2: "t' = w' @ b'" "w = map f w'" by blast
  from 1 2 have e: "t = a' @ w' @ b'" "map f w' = w" by simp_all
  have "map f w' = w'"
  proof (rule map_idI)
    fix c assume c: "c \<in> set w'"
    then have "f c \<in> set w" using e(2) by (metis image_eqI set_map)
    moreover from c e(1) have "c \<in> set t" by simp
    ultimately show "f c = c" using assms(1) by blast
  qed
  with e show ?thesis unfolding occurs_iff by auto
qed

lemma needs_opener:
  "needs_char (\<lambda>c. c = 0x3010) rx_annotation"
  "needs_char (\<lambda>c. c = 0x28 \<or> c = 0xFF1C \<or> c = 0x3008) rx_label"
  by (simp_all add: rx_annotation_def rx_label_def in_class_def)

definition plain_char :: "nat \<Rightarrow> bool" where
  "plain_char c = (\<not> is_fullwidth_alnum c
     \<and> c \<notin> {0x3010, 0x28, 0xFF08, 0xFF1C, 0x3C, 0x3008})"

definition rewrite_char :: "nat \<Rightarrow> nat" where
  "rewrite_char c = (\<lambda>c. if c = 0xFF08 \<or> c = 0xFF09 then c - 0xFEE0 else c)
     ((\<lambda>c. if is_unsafe c then c + 0xFEE0 else c)
       ((\<lambda>c. if is_fullwidth_alnum c then c - 0xFEE0 else c) c))"

lemma prepare_title_rewrite:
  "prepare_title t = replace_unnecessary_characters (map rewrite_char t)"
  by (simp add: prepare_title_def rewrite_char_def [abs_def] comp_def)

lemma rewrite_char_plain:
  assumes "plain_char c"
  shows "rewrite_char c \<notin> {0x3010, 0x28, 0xFF1C, 0x3008}"
    "rewrite_char c \<in> set epub \<longrightarrow> rewrite_char c = c"
  using assms unfolding plain_char_def rewrite_char_def is_unsafe_def epub_chars
  by (auto split: if_splits)

lemma plain_title_no_annotation:
  assumes "\<forall>c\<in>set t. plain_char c"
  shows "replace_unnecessary_characters (map rewrite_char t) =
           re_sub rx_spaces [0x20] (re_sub rx_colon [0x20] (map rewrite_char t))"
proof -
  let ?m = "map rewrite_char t"
  have c: "\<forall>c\<in>set ?m. c \<notin> {0x3010, 0x28, 0xFF1C, 0x3008}"
    using assms rewrite_char_plain(1) by auto
  then have "\<forall>c\<in>set ?m. \<not> c = 0x3010" by blast
  from re_search_needs_char [OF needs_opener(1) this]
  have a: "re_sub rx_annotation [] ?m = ?m" by (rule re_sub_no_match)
  from c have "\<forall>c\<in>set ?m. \<not> (c = 0x28 \<or> c = 0xFF1C \<or> c = 0x3008)" by blast
  from re_search_needs_char [OF needs_opener(2) this]
  have b: "re_sub rx_label [] ?m = ?m" by (rule re_sub_no_match)
  show ?thesis by (simp add: replace_unnecessary_characters_def a b)
qed

lemma plain_title_no_epub:
  assumes "\<not> occurs epub t" "\<forall>c\<in>set t. plain_char c"
  shows "\<not> occurs epub (prepare_title t)"
proof -
  have "\<forall>c\<in>set t. rewrite_char c \<in> set epub \<longrightarrow> rewrite_char c = c"
    using assms(2) rewrite_char_plain(2) by blast
  from occurs_map [OF this] assms(1) have "\<not> occurs epub (map rewrite_char t)" by blast
  then have "\<not> occurs epub (re_sub rx_spaces [0x20] (re_sub rx_colon [0x20] (map rewrite_char t)))"
    by (intro spaces_no_epub)
  then show ?thesis
    by (simp add: prepare_title_rewrite plain_title_no_annotation [OF assms(2)])
qed

subsection \<open>Patterns without a look-behind do not read the text before the position\<close>


definition same_end :: "mstate \<Rightarrow> mstate \<Rightarrow> bool" where
  "same_end s s' = (snd s = snd s')"

lemma same_end_simp [simp]: "same_end (b, r, g) (b', r', g') = (r = r' \<and> g = g')"
  by (simp add: same_end_def)








subsection \<open>A substitution, position by position\<close>








subsection \<open>The characters a pattern consumes\<close>










subsection \<open>The first way a lazy repetition matches\<close>








subsection \<open>The annotation tokens\<close>










subsection \<open>Removing an annotation\<close>












section \<open>The claims\<close>

text \<open>
  C6: the unsafe-symbol rewriter replaces every occurrence of each of the characters
  \<^verbatim>\<open>< > : " / \ | ! ? *\<close> with the character \<open>0xFEE0\<close> code points higher, leaves every
  other character as it is, and its result holds none of those ASCII characters.
\<close>

theorem unsafe_symbols_rewritten:
  "\<exists>r. replace_unsafe_symbol_to_safe_symbol t = Inr r
     \<and> r = map (\<lambda>c. if c \<in> {0x3C, 0x3E, 0x3A, 0x22, 0x2F, 0x5C, 0x7C, 0x21, 0x3F, 0x2A}
                      then c + 0xFEE0 else c) t
     \<and> set r \<inter> {0x3C, 0x3E, 0x3A, 0x22, 0x2F, 0x5C, 0x7C, 0x21, 0x3F, 0x2A} = {}"
  unfolding replace_unsafe_map is_unsafe_def by auto

theorem unsafe_symbols_rewritten_witness:
  "replace_unsafe_symbol_to_safe_symbol (u ''a?b*'') = Inr [0x61, 0xFF1F, 0x62, 0xFF0A]"
  using unsafe_symbols_rewritten [of "u ''a?b*''"] by (auto simp: u_def)

text \<open>
  C7: \<^verbatim>\<open>format_book_author\<close> is the full-width alphanumeric rewrite followed by the
  unsafe-symbol rewrite and nothing else; it returns for every author (no exception),
  the empty author gives the empty string, and the full-width \<^verbatim>\<open>Author\<close> gives
  \<^verbatim>\<open>Author\<close>.
\<close>

theorem format_book_author_composition:
  "format_book_author t =
     ebind (replace_fullwidth_alpha_numeral_to_halfwidth t) replace_unsafe_symbol_to_safe_symbol
   \<and> format_book_author t =
     Inr (map (\<lambda>c. if c \<in> {0x3C, 0x3E, 0x3A, 0x22, 0x2F, 0x5C, 0x7C, 0x21, 0x3F, 0x2A}
                    then c + 0xFEE0 else c)
           (map (\<lambda>c. if 0xFF21 \<le> c \<and> c \<le> 0xFF3A \<or> 0xFF41 \<le> c \<and> c \<le> 0xFF5A
                          \<or> 0xFF10 \<le> c \<and> c \<le> 0xFF19
                        then c - 0xFEE0 else c) t))
   \<and> format_book_author [] = Inr []
   \<and> format_book_author [0xFF21, 0xFF55, 0xFF54, 0xFF48, 0xFF4F, 0xFF52] = Inr (u ''Author'')"
  by (simp add: format_book_author_def replace_unsafe_map replace_fullwidth_alnum_map
      is_unsafe_def is_fullwidth_alnum_def u_def)

theorem format_book_author_composition_witness:
  "format_book_author (u ''A/'' @ [0xFF22]) = Inr [0x41, 0xFF0F, 0x42]"
  using format_book_author_composition [of "u ''A/'' @ [0xFF22]", THEN conjunct2]
  by (simp add: u_def)



text \<open>
  C3: the numbering examples. The bracketed and the circled examples are as the
  specification says; the kanji example is not: the kanji rule leaves
  \<^verbatim>\<open>Title 3 .epub\<close>, and the rule for numbers before the extension then pads the
  \<^verbatim>\<open>3\<close>, so the title becomes \<^verbatim>\<open>Title 03.epub\<close>.
\<close>

theorem numbering_examples:
  "format_book_title (u ''Title (1) Sub.epub'') = Inr (u ''Title 01 Sub.epub'')
   \<and> format_book_title (u ''Title(12).epub'') = Inr (u ''Title 12.epub'')
   \<and> pad_kanji_number (u ''Title '' @ [0x53C2] @ u '' '' @ [0x5DFB] @ u ''.epub'') = u ''Title 3 .epub''
   \<and> pad_before_extension (u ''Title 3 .epub'') = Inr (u ''Title 03.epub'')
   \<and> format_book_title (u ''Title '' @ [0x53C2] @ u '' '' @ [0x5DFB] @ u ''.epub'') =
         Inr (u ''Title 03.epub'')
   \<and> format_book_title (u ''Title'' @ [0x2460] @ u ''.epub'') = Inr (u ''Title 01.epub'')"
proof -
  have "pad_kanji_number (u ''Title '' @ [0x53C2] @ u '' '' @ [0x5DFB] @ u ''.epub'') = u ''Title 3 .epub''"
    by (simp add: fmt_defs rx_defs eval_defs)
  moreover have "pad_before_extension (u ''Title 3 .epub'') = Inr (u ''Title 03.epub'')"
    by (simp add: fmt_defs rx_defs eval_defs)
  ultimately show ?thesis
    using eval_paren_mid eval_paren_ext eval_kanji_volume eval_circled by simp
qed

theorem kanji_volume_not_unpadded:
  "format_book_title (u ''Title '' @ [0x53C2] @ u '' '' @ [0x5DFB] @ u ''.epub'') \<noteq>
     Inr (u ''Title 3.epub'')"
  unfolding eval_kanji_volume by (simp add: u_def)









text \<open>
  C9: a string without \<^verbatim>\<open>.epub\<close> is left as it is by the rule for a bracketed number
  before the extension, by the rule for a bare number before the extension and by the
  strip of blanks before the extension. When the title \<^emph>\<open>as it leaves stage 6\<close> holds
  no \<^verbatim>\<open>.epub\<close>, \<^verbatim>\<open>format_book_title\<close> is the remaining rules only; this is so when
  the input holds no \<^verbatim>\<open>.epub\<close>, no full-width Latin letter or digit and no opening
  bracket of the annotation patterns (a full-width \<^verbatim>\<open>epub\<close> or a removed annotation can
  otherwise put the extension together).
\<close>

theorem extension_rules_need_extension:
  "(\<not> occurs (u ''.epub'') s \<longrightarrow>
      pad_round_brackets_ext s = Inr s \<and> pad_before_extension s = Inr s
      \<and> re_sub rx_spaces_before_ext [] s = s)
   \<and> (\<not> occurs (u ''.epub'') (prepare_title t) \<longrightarrow>
      format_book_title t =
        ebind (pad_round_brackets_space (prepare_title t)) (\<lambda>t.
        ebind (pad_symbol_number 0x2460 0x2468 0x242F (pad_kanji_number t)) (\<lambda>t.
        ebind (pad_symbol_number 0x2474 0x247C 0x2443 t) (\<lambda>t.
        ebind (pad_symbol_number 0x2488 0x2490 0x2457 t) (\<lambda>t.
        ebind (pad_symbol_number 0x24F5 0x24FD 0x24C4 t) (\<lambda>t.
        Inr (re_sub rx_spaces [0x20] t)))))))
   \<and> (\<not> occurs (u ''.epub'') t
       \<and> (\<forall>c\<in>set t. \<not> (0xFF21 \<le> c \<and> c \<le> 0xFF3A \<or> 0xFF41 \<le> c \<and> c \<le> 0xFF5A
                            \<or> 0xFF10 \<le> c \<and> c \<le> 0xFF19)
                      \<and> c \<notin> {0x3010, 0x28, 0xFF08, 0xFF1C, 0x3C, 0x3008}) \<longrightarrow>
      \<not> occurs (u ''.epub'') (prepare_title t))"
  using no_epub_rules [of s] no_epub_pipeline [of t] plain_title_no_epub [of t]
  unfolding epub_def plain_char_def is_fullwidth_alnum_def by blast

theorem extension_rules_need_extension_witness:
  "\<not> occurs (u ''.epub'') (u ''Title 1'')
   \<and> pad_round_brackets_ext (u ''Title 1'') = Inr (u ''Title 1'')
   \<and> pad_before_extension (u ''Title 1'') = Inr (u ''Title 1'')
   \<and> re_sub rx_spaces_before_ext [] (u ''Title 1'') = u ''Title 1''
   \<and> \<not> occurs (u ''.epub'') (prepare_title (u ''Title 1''))"
proof -
  have a: "\<not> occurs (u ''.epub'') (u ''Title 1'')" by (simp add: u_def)
  have b: "\<forall>c\<in>set (u ''Title 1''). \<not> (0xFF21 \<le> c \<and> c \<le> 0xFF3A \<or> 0xFF41 \<le> c \<and> c \<le> 0xFF5A
                            \<or> 0xFF10 \<le> c \<and> c \<le> 0xFF19)
                      \<and> c \<notin> {0x3010, 0x28, 0xFF08, 0xFF1C, 0x3C, 0x3008}"
    by (simp add: u_def)
  from extension_rules_need_extension [of "u ''Title 1''" "u ''Title 1''"] a b
  show ?thesis by blast
qed

theorem fullwidth_extension_fires_rule:
  "\<not> occurs (u ''.epub'') (u ''Title(1).'' @ [0xFF45, 0xFF50, 0xFF55, 0xFF42])
   \<and> prepare_title (u ''Title(1).'' @ [0xFF45, 0xFF50, 0xFF55, 0xFF42]) = u ''Title(1).epub''
   \<and> pad_round_brackets_ext (u ''Title(1).epub'') = Inr (u ''Title 01.epub'')
   \<and> format_book_title (u ''Title(1).'' @ [0xFF45, 0xFF50, 0xFF55, 0xFF42]) =
        Inr (u ''Title 01.epub'')"
proof -
  have a: "\<not> occurs (u ''.epub'') (u ''Title(1).'' @ [0xFF45, 0xFF50, 0xFF55, 0xFF42])"
    by (simp add: u_def)
  have b: "prepare_title (u ''Title(1).'' @ [0xFF45, 0xFF50, 0xFF55, 0xFF42]) = u ''Title(1).epub''"
    by (simp add: prepare_title_def is_unsafe_def is_fullwidth_alnum_def fmt_defs rx_defs eval_defs)
  have c: "pad_round_brackets_ext (u ''Title(1).epub'') = Inr (u ''Title 01.epub'')"
    by (simp add: fmt_defs rx_defs eval_defs)
  have d: "format_book_title (u ''Title(1).'' @ [0xFF45, 0xFF50, 0xFF55, 0xFF42]) =
        Inr (u ''Title 01.epub'')"
    by (simp add: fmt_defs rx_defs eval_defs)
  from a b c d show ?thesis by blast
qed




end
